theory Spec2Isabelle
  imports Main "HOL-Library.Multiset" "HOL-Library.Product_Lexorder"
    "HOL-Library.Transitive_Closure_Table"
begin

section \<open>The delivery path optimizer: data model\<close>

text \<open>
  The class \<open>DeliveryPathOptimizer\<close> of \<open>delpathopt.cpp\<close> holds four private fields.
  Location handles and the location count are \<open>int\<close> in the source; they start at 0 and
  only ever index vectors, so they are natural numbers here. Route costs and distances
  are 32-bit signed \<open>int\<close>s: they are integers here, and every addition or
  multiplication the source performs on them is wrapped with \<open>wrap32\<close>. C++ leaves a
  signed sum outside the range undefined; \<open>wrap32\<close> gives the two's-complement result.
\<close>

record dpo =
  locationToIndex :: "string \<rightharpoonup> nat"
  indexToLocation :: "string list"
  adjList :: "(nat \<times> int) list list"
  locationCount :: nat

text \<open>
  The three ways an operation can fail. The first two are the messages the source
  prints before returning early; \<open>OutOfBounds\<close> stands for an access outside a vector,
  which the source does not check.
\<close>

datatype error = DuplicateLocation | LocationNotFound | OutOfBounds

text \<open>One line of the delivery plan: \<open>Unreachable\<close>, or \<open>ETA = d, Cost = c\<close>.\<close>

datatype report = Unreachable | ETA int int

definition INT_MAX :: int where
  "INT_MAX = 2147483647"

definition wrap32 :: "int \<Rightarrow> int" where
  "wrap32 x = (x + 2147483648) mod 4294967296 - 2147483648"

text \<open>The constructor: no locations.\<close>

definition init :: dpo where
  "init = \<lparr> locationToIndex = Map.empty, indexToLocation = [], adjList = [],
            locationCount = 0 \<rparr>"

section \<open>Mutation operations\<close>

definition addLocation :: "dpo \<Rightarrow> string \<Rightarrow> (error + unit) \<times> dpo" where
  "addLocation s name =
     (if locationToIndex s name \<noteq> None then (Inl DuplicateLocation, s)
      else (Inr (),
            s\<lparr> locationToIndex := (locationToIndex s)(name \<mapsto> locationCount s),
               indexToLocation := indexToLocation s @ [name],
               adjList := adjList s @ [[]],
               locationCount := locationCount s + 1 \<rparr>))"

text \<open>\<open>vec.erase(vec.begin() + idx)\<close>\<close>

definition erase_at :: "nat \<Rightarrow> 'a list \<Rightarrow> 'a list" where
  "erase_at idx xs = take idx xs @ drop (Suc idx) xs"

text \<open>
  The body of the loop over the remaining rows in \<open>removeLocation\<close>: drop the entries
  that point at \<open>idx\<close>, then decrement every target above \<open>idx\<close>.
\<close>

definition adjust_row :: "nat \<Rightarrow> (nat \<times> int) list \<Rightarrow> (nat \<times> int) list" where
  "adjust_row idx neighbors =
     map (\<lambda>p. if fst p > idx then (fst p - 1, snd p) else p)
       (filter (\<lambda>p. \<not> (fst p = idx)) neighbors)"

text \<open>The loop that rebuilds the name map after \<open>clear()\<close>: a later index overwrites an
  earlier one for the same name.\<close>

definition rebuild_index :: "string list \<Rightarrow> (string \<rightharpoonup> nat)" where
  "rebuild_index names = fold (\<lambda>i m. m(names ! i \<mapsto> i)) [0..<length names] Map.empty"

definition removeLocation :: "dpo \<Rightarrow> string \<Rightarrow> (error + unit) \<times> dpo" where
  "removeLocation s name =
     (case locationToIndex s name of
        None \<Rightarrow> (Inl LocationNotFound, s)
      | Some idx \<Rightarrow>
          if \<not> (idx < length (adjList s) \<and> idx < length (indexToLocation s))
          then (Inl OutOfBounds, s)
          else
            let names = erase_at idx (indexToLocation s) in
            (Inr (),
             s\<lparr> locationToIndex := rebuild_index names,
                indexToLocation := names,
                adjList := map (adjust_row idx) (erase_at idx (adjList s)),
                locationCount := locationCount s - 1 \<rparr>))"

definition addRoute :: "dpo \<Rightarrow> string \<Rightarrow> string \<Rightarrow> int \<Rightarrow> (error + unit) \<times> dpo" where
  "addRoute s from to cost =
     (case (locationToIndex s from, locationToIndex s to) of
        (Some u, Some v) \<Rightarrow>
          if \<not> (u < length (adjList s) \<and> v < length (adjList s))
          then (Inl OutOfBounds, s)
          else
            let adj1 = (adjList s)[u := adjList s ! u @ [(v, cost)]];
                adj2 = adj1[v := adj1 ! v @ [(u, cost)]]
            in (Inr (), s\<lparr> adjList := adj2 \<rparr>)
      | _ \<Rightarrow> (Inl LocationNotFound, s))"

definition removeRoute :: "dpo \<Rightarrow> string \<Rightarrow> string \<Rightarrow> (error + unit) \<times> dpo" where
  "removeRoute s from to =
     (case (locationToIndex s from, locationToIndex s to) of
        (Some u, Some v) \<Rightarrow>
          if \<not> (u < length (adjList s) \<and> v < length (adjList s))
          then (Inl OutOfBounds, s)
          else
            let adj1 = (adjList s)[u := filter (\<lambda>p. \<not> (fst p = v)) (adjList s ! u)];
                adj2 = adj1[v := filter (\<lambda>p. \<not> (fst p = u)) (adj1 ! v)]
            in (Inr (), s\<lparr> adjList := adj2 \<rparr>)
      | _ \<Rightarrow> (Inl LocationNotFound, s))"

definition showLocations :: "dpo \<Rightarrow> string list" where
  "showLocations s = indexToLocation s"

section \<open>Shortest paths (Dijkstra)\<close>

text \<open>
  The inner \<open>for\<close> loop of \<open>optimizeDeliveryPlan\<close> over the row \<open>adjList[u]\<close>. The
  source reads \<open>dist[u]\<close> again at every edge, and so does the model. The sum
  \<open>dist[u] + cost\<close> is a 32-bit addition.
\<close>

fun relax :: "(nat \<times> int) list \<Rightarrow> nat \<Rightarrow> int list \<Rightarrow> (int \<times> nat) list
    \<Rightarrow> error + (int list \<times> (int \<times> nat) list)" where
  "relax [] u dist pq = Inr (dist, pq)"
| "relax ((v, cost) # es) u dist pq =
     (if \<not> (v < length dist \<and> u < length dist) then Inl OutOfBounds
      else if dist ! v > wrap32 (dist ! u + cost)
      then let dist' = dist[v := wrap32 (dist ! u + cost)]
           in relax es u dist' (pq @ [(dist' ! v, v)])
      else relax es u dist pq)"

text \<open>
  The frontier is a \<open>priority_queue\<close> of pairs (distance, handle) ordered by
  \<open>greater<pair<int,int>>\<close>: \<open>top()\<close> is the least pair in the lexicographic order of
  \<open>std::pair\<close>, which is the order of pairs in HOL here. The model keeps the entries
  in a list in the order they were pushed; \<open>top\<close> is the least entry and \<open>pop\<close>
  removes one copy of it.
\<close>

definition pq_top :: "(int \<times> nat) list \<Rightarrow> int \<times> nat" where
  "pq_top pq = fold min (tl pq) (hd pq)"

definition pq_pop :: "(int \<times> nat) list \<Rightarrow> (int \<times> nat) list" where
  "pq_pop pq = remove1 (pq_top pq) pq"

text \<open>The sum of the distances above the least \<open>int\<close>: what the main loop decreases.\<close>

definition potential :: "int list \<Rightarrow> nat" where
  "potential dist = sum_list (map (\<lambda>x. nat (x + 2147483648)) dist)"

lemma wrap32_lower: "- 2147483648 \<le> wrap32 x"
  by (simp add: wrap32_def)

lemma wrap32_upper: "wrap32 x \<le> 2147483647"
  by (simp add: wrap32_def)

lemma wrap32_id: "- 2147483648 \<le> x \<Longrightarrow> x \<le> 2147483647 \<Longrightarrow> wrap32 x = x"
  by (simp add: wrap32_def)

lemma potential_update:
  assumes "v < length dist" and "wrap32 x < dist ! v"
  shows "potential (dist[v := wrap32 x]) < potential dist"
proof -
  let ?f = "\<lambda>x::int. nat (x + 2147483648)"
  have lt: "?f (wrap32 x) < ?f (dist ! v)"
    using assms(2) wrap32_lower [of x] by linarith
  have le: "?f (dist ! v) \<le> sum_list (map ?f dist)"
    using assms(1) by (intro member_le_sum_list) (auto simp: in_set_conv_nth intro!: image_eqI)
  have "sum_list (map ?f (dist[v := wrap32 x])) =
          sum_list (map ?f dist) + ?f (wrap32 x) - ?f (dist ! v)"
    using assms(1) by (simp add: map_update sum_list_update)
  with lt le show ?thesis unfolding potential_def by linarith
qed

lemma relax_measure:
  "relax es u dist pq = Inr (dist', pq') \<Longrightarrow>
     length dist' = length dist \<and>
     ((dist' = dist \<and> pq' = pq) \<or> potential dist' < potential dist)"
proof (induction es arbitrary: dist pq)
  case Nil
  then show ?case by simp
next
  case (Cons e es)
  obtain v cost where e: "e = (v, cost)" by (cases e)
  show ?case
  proof (cases "v < length dist \<and> u < length dist")
    case False
    with Cons.prems e show ?thesis by simp
  next
    case inr: True
    show ?thesis
    proof (cases "dist ! v > wrap32 (dist ! u + cost)")
      case True
      let ?d = "dist[v := wrap32 (dist ! u + cost)]"
      from Cons.prems e inr True
      have "relax es u ?d (pq @ [(?d ! v, v)]) = Inr (dist', pq')" by (simp add: Let_def)
      from Cons.IH [OF this] potential_update [of v dist "dist ! u + cost"] inr True
      show ?thesis by auto
    next
      case False
      with Cons.prems e inr have "relax es u dist pq = Inr (dist', pq')" by simp
      from Cons.IH [OF this] show ?thesis .
    qed
  qed
qed

lemma pq_top_Min: "pq \<noteq> [] \<Longrightarrow> pq_top pq = Min (set pq)"
proof -
  assume "pq \<noteq> []"
  then obtain x xs where "pq = x # xs" by (cases pq) auto
  then show ?thesis
    using Min.set_eq_fold [of x xs] by (simp add: pq_top_def)
qed

lemma pq_top_in: "pq \<noteq> [] \<Longrightarrow> pq_top pq \<in> set pq"
  using Min_in [of "set pq"] by (simp add: pq_top_Min)

lemma pq_pop_length: "pq \<noteq> [] \<Longrightarrow> length (pq_pop pq) < length pq"
proof -
  assume ne: "pq \<noteq> []"
  then have "length (remove1 (pq_top pq) pq) = length pq - 1"
    using pq_top_in [of pq] by (simp add: length_remove1)
  with ne show ?thesis by (cases pq) (simp_all add: pq_pop_def)
qed

text \<open>
  The main \<open>while (!pq.empty())\<close> loop. An entry whose distance is above the best
  known one is skipped. The loop ends on every input: each push comes with a strict
  decrease of one 32-bit distance.
\<close>

function dijkstra_loop :: "(nat \<times> int) list list \<Rightarrow> int list \<Rightarrow> (int \<times> nat) list
    \<Rightarrow> error + int list" where
  "dijkstra_loop adj dist pq =
     (if pq = [] then Inr dist
      else
        let top = pq_top pq; pq1 = pq_pop pq; d = fst top; u = snd top in
        if \<not> u < length dist then Inl OutOfBounds
        else if d > dist ! u then dijkstra_loop adj dist pq1
        else if \<not> u < length adj then Inl OutOfBounds
        else (case relax (adj ! u) u dist pq1 of
                Inl e \<Rightarrow> Inl e
              | Inr (dist', pq2) \<Rightarrow> dijkstra_loop adj dist' pq2))"
  by pat_completeness auto

termination
proof (relation "measures [\<lambda>(adj, dist, pq). potential dist, \<lambda>(adj, dist, pq). length pq]",
    goal_cases)
  case 1
  then show ?case by simp
next
  case (2 adj dist pq top pq1 d u)
  then show ?case using pq_pop_length [of pq] by simp
next
  case (3 adj dist pq top pq1 d u x2 dist' pq2)
  from relax_measure [of "adj ! u" u dist pq1 dist' pq2] 3
  have "(dist' = dist \<and> pq2 = pq1) \<or> potential dist' < potential dist" by simp
  then show ?case using 3 pq_pop_length [of pq] by auto
qed

declare dijkstra_loop.simps [simp del]

text \<open>The line printed for location \<open>i\<close>; the cost is the 32-bit product \<open>dist[i] * 5\<close>.\<close>

definition plan_line :: "int \<Rightarrow> report" where
  "plan_line d = (if d = INT_MAX then Unreachable else ETA d (wrap32 (d * 5)))"

definition optimizeDeliveryPlan :: "dpo \<Rightarrow> string \<Rightarrow> error + (string \<times> report) list" where
  "optimizeDeliveryPlan s start =
     (case locationToIndex s start of
        None \<Rightarrow> Inl LocationNotFound
      | Some src \<Rightarrow>
          let n = locationCount s in
          if \<not> src < n then Inl OutOfBounds
          else (case dijkstra_loop (adjList s) ((replicate n INT_MAX)[src := 0]) [(0, src)] of
                  Inl e \<Rightarrow> Inl e
                | Inr dist \<Rightarrow>
                    if \<not> (n \<le> length (indexToLocation s) \<and> n \<le> length dist)
                    then Inl OutOfBounds
                    else Inr (map (\<lambda>i. (indexToLocation s ! i, plan_line (dist ! i))) [0..<n])))"

section \<open>Reachability traversal (BFS)\<close>

text \<open>The inner \<open>for\<close> loop of \<open>simulateDelivery\<close> over the row \<open>adjList[curr]\<close>.\<close>

fun visit_neighbors :: "(nat \<times> int) list \<Rightarrow> bool list \<Rightarrow> nat list
    \<Rightarrow> error + (bool list \<times> nat list)" where
  "visit_neighbors [] visited q = Inr (visited, q)"
| "visit_neighbors ((neighbor, c) # es) visited q =
     (if \<not> neighbor < length visited then Inl OutOfBounds
      else if \<not> visited ! neighbor
      then visit_neighbors es (visited[neighbor := True]) (q @ [neighbor])
      else visit_neighbors es visited q)"

definition unvisited :: "bool list \<Rightarrow> nat" where
  "unvisited visited = length (filter Not visited)"

lemma unvisited_update:
  assumes "v < length visited" and "\<not> visited ! v"
  shows "unvisited (visited[v := True]) < unvisited visited"
  using assms
proof (induction visited arbitrary: v)
  case Nil
  then show ?case by simp
next
  case (Cons b bs)
  then show ?case by (cases v) (auto simp: unvisited_def)
qed

lemma visit_neighbors_measure:
  "visit_neighbors es visited q = Inr (visited', q') \<Longrightarrow>
     (visited' = visited \<and> q' = q) \<or> unvisited visited' < unvisited visited"
proof (induction es arbitrary: visited q)
  case Nil
  then show ?case by simp
next
  case (Cons e es)
  obtain v c where e: "e = (v, c)" by (cases e)
  show ?case
  proof (cases "v < length visited")
    case False
    with Cons.prems e show ?thesis by simp
  next
    case inr: True
    show ?thesis
    proof (cases "visited ! v")
      case True
      with Cons.prems e inr have "visit_neighbors es visited q = Inr (visited', q')" by simp
      from Cons.IH [OF this] show ?thesis .
    next
      case False
      with Cons.prems e inr
      have "visit_neighbors es (visited[v := True]) (q @ [v]) = Inr (visited', q')" by simp
      from Cons.IH [OF this] unvisited_update [OF inr False] show ?thesis by auto
    qed
  qed
qed

text \<open>
  The main \<open>while (!q.empty())\<close> loop. \<open>nlen\<close> is the size of \<open>indexToLocation\<close>, read
  when the name of \<open>curr\<close> is printed; \<open>out\<close> collects the handles delivered to, in
  order.
\<close>

function bfs_loop :: "nat \<Rightarrow> (nat \<times> int) list list \<Rightarrow> bool list \<Rightarrow> nat list \<Rightarrow> nat list
    \<Rightarrow> error + nat list" where
  "bfs_loop nlen adj visited q out =
     (case q of
        [] \<Rightarrow> Inr out
      | cur # q1 \<Rightarrow>
          if \<not> (cur < nlen \<and> cur < length adj) then Inl OutOfBounds
          else (case visit_neighbors (adj ! cur) visited q1 of
                  Inl e \<Rightarrow> Inl e
                | Inr (visited', q2) \<Rightarrow> bfs_loop nlen adj visited' q2 (out @ [cur])))"
  by pat_completeness auto

termination
proof (relation "measures [\<lambda>(nlen, adj, visited, q, out). unvisited visited,
    \<lambda>(nlen, adj, visited, q, out). length q]", goal_cases)
  case 1
  then show ?case by simp
next
  case (2 nlen adj visited q out cur q1 x2 visited' q2)
  from visit_neighbors_measure [of "adj ! cur" visited q1 visited' q2] 2
  show ?case by auto
qed

declare bfs_loop.simps [simp del]

definition simulateDelivery :: "dpo \<Rightarrow> string \<Rightarrow> error + string list" where
  "simulateDelivery s start =
     (case locationToIndex s start of
        None \<Rightarrow> Inl LocationNotFound
      | Some src \<Rightarrow>
          if \<not> src < locationCount s then Inl OutOfBounds
          else (case bfs_loop (length (indexToLocation s)) (adjList s)
                       ((replicate (locationCount s) False)[src := True]) [src] [] of
                  Inl e \<Rightarrow> Inl e
                | Inr order \<Rightarrow> Inr (map (\<lambda>v. indexToLocation s ! v) order)))"

section \<open>The menu\<close>

text \<open>
  The \<open>switch\<close> of \<open>main\<close>, after the menu choice and the cost have been parsed:
  one command per case, each calling one operation on the single optimizer object.
\<close>

datatype command =
    AddLocation string
  | RemoveLocation string
  | AddRoute string string int
  | RemoveRoute string string
  | ShowLocations
  | OptimizeDeliveryPlan string
  | SimulateRoute string

datatype outcome =
    Done
  | Locations "string list"
  | Plan "(string \<times> report) list"
  | Deliveries "string list"

definition lift_unit :: "(error + unit) \<times> dpo \<Rightarrow> (error + outcome) \<times> dpo" where
  "lift_unit r = (case fst r of Inl e \<Rightarrow> Inl e | Inr _ \<Rightarrow> Inr Done, snd r)"

fun exec :: "dpo \<Rightarrow> command \<Rightarrow> (error + outcome) \<times> dpo" where
  "exec s (AddLocation name) = lift_unit (addLocation s name)"
| "exec s (RemoveLocation name) = lift_unit (removeLocation s name)"
| "exec s (AddRoute from to cost) = lift_unit (addRoute s from to cost)"
| "exec s (RemoveRoute from to) = lift_unit (removeRoute s from to)"
| "exec s ShowLocations = (Inr (Locations (showLocations s)), s)"
| "exec s (OptimizeDeliveryPlan start) =
     (case optimizeDeliveryPlan s start of Inl e \<Rightarrow> Inl e | Inr p \<Rightarrow> Inr (Plan p), s)"
| "exec s (SimulateRoute start) =
     (case simulateDelivery s start of Inl e \<Rightarrow> Inl e | Inr d \<Rightarrow> Inr (Deliveries d), s)"

text \<open>The state after a sequence of commands.\<close>

fun run :: "dpo \<Rightarrow> command list \<Rightarrow> dpo" where
  "run s [] = s"
| "run s (c # cs) = run (snd (exec s c)) cs"

section \<open>Well-formed states\<close>

text \<open>
  What every state the menu can reach satisfies: the two name tables agree, every
  adjacency target is a live handle, and every route is stored in both directions.
\<close>

definition names_ok :: "dpo \<Rightarrow> bool" where
  "names_ok s \<longleftrightarrow>
     length (indexToLocation s) = locationCount s \<and>
     distinct (indexToLocation s) \<and>
     (\<forall>name h. locationToIndex s name = Some h \<longleftrightarrow>
        h < locationCount s \<and> indexToLocation s ! h = name)"

definition adj_ok :: "dpo \<Rightarrow> bool" where
  "adj_ok s \<longleftrightarrow>
     length (adjList s) = locationCount s \<and>
     (\<forall>row \<in> set (adjList s). \<forall>p \<in> set row. fst p < locationCount s)"

definition symmetric :: "dpo \<Rightarrow> bool" where
  "symmetric s \<longleftrightarrow>
     (\<forall>u v c. u < locationCount s \<longrightarrow> v < locationCount s \<longrightarrow>
        count_list (adjList s ! u) (v, c) = count_list (adjList s ! v) (u, c))"

definition wf :: "dpo \<Rightarrow> bool" where
  "wf s \<longleftrightarrow> names_ok s \<and> adj_ok s \<and> symmetric s"

lemma wf_init: "wf init"
  by (simp add: wf_def names_ok_def adj_ok_def symmetric_def init_def)

subsection \<open>addLocation\<close>

lemma names_ok_addLocation:
  assumes "names_ok s"
  shows "names_ok (snd (addLocation s name))"
proof (cases "locationToIndex s name")
  case (Some h)
  with assms show ?thesis by (simp add: addLocation_def)
next
  case None
  from assms have len: "length (indexToLocation s) = locationCount s"
    and dist: "distinct (indexToLocation s)"
    and m: "\<And>nm h. locationToIndex s nm = Some h \<longleftrightarrow>
        h < locationCount s \<and> indexToLocation s ! h = nm"
    by (auto simp: names_ok_def)
  have notin: "name \<notin> set (indexToLocation s)"
  proof
    assume "name \<in> set (indexToLocation s)"
    then obtain h where "h < length (indexToLocation s)" "indexToLocation s ! h = name"
      by (auto simp: in_set_conv_nth)
    with m [of name h] len None show False by simp
  qed
  show ?thesis
    unfolding names_ok_def
    using None len dist notin m
    by (auto simp: addLocation_def nth_append less_Suc_eq)
qed

lemma adj_ok_addLocation:
  assumes "adj_ok s"
  shows "adj_ok (snd (addLocation s name))"
  using assms by (fastforce simp: adj_ok_def addLocation_def)

lemma symmetric_addLocation:
  assumes "symmetric s" and "adj_ok s"
  shows "symmetric (snd (addLocation s name))"
proof (cases "locationToIndex s name")
  case (Some h)
  with assms show ?thesis by (simp add: addLocation_def)
next
  case None
  from assms(2) have len: "length (adjList s) = locationCount s"
    and tgt: "\<And>u p. u < locationCount s \<Longrightarrow> p \<in> set (adjList s ! u) \<Longrightarrow> fst p < locationCount s"
    by (auto simp: adj_ok_def)
  have zero: "count_list (adjList s ! u) (locationCount s, c) = 0" if "u < locationCount s" for u c
    using tgt [OF that, of "(locationCount s, c)"] by (auto simp: count_list_0_iff)
  show ?thesis
    unfolding symmetric_def
    using None len assms(1) zero
    by (auto simp: addLocation_def nth_append less_Suc_eq symmetric_def)
qed

lemma wf_addLocation: "wf s \<Longrightarrow> wf (snd (addLocation s name))"
  by (simp add: wf_def names_ok_addLocation adj_ok_addLocation symmetric_addLocation)


subsection \<open>Looking names up\<close>

lemma names_ok_lookup:
  "names_ok s \<Longrightarrow> locationToIndex s name = Some h \<Longrightarrow>
     h < locationCount s \<and> indexToLocation s ! h = name"
  by (simp add: names_ok_def)

lemma addRoute_found:
  assumes "locationToIndex s from = Some u" and "locationToIndex s to = Some v"
    and "u < length (adjList s)" and "v < length (adjList s)"
  shows "addRoute s from to cost =
     (Inr (), s\<lparr> adjList := ((adjList s)[u := adjList s ! u @ [(v, cost)]])
        [v := ((adjList s)[u := adjList s ! u @ [(v, cost)]]) ! v @ [(u, cost)]] \<rparr>)"
  using assms by (simp add: addRoute_def Let_def)

lemma addRoute_missing:
  assumes "locationToIndex s from = None \<or> locationToIndex s to = None"
  shows "addRoute s from to cost = (Inl LocationNotFound, s)"
  using assms by (auto simp: addRoute_def split: option.splits)

lemma removeRoute_found:
  assumes "locationToIndex s from = Some u" and "locationToIndex s to = Some v"
    and "u < length (adjList s)" and "v < length (adjList s)"
  shows "removeRoute s from to =
     (Inr (), s\<lparr> adjList := ((adjList s)[u := filter (\<lambda>p. \<not> (fst p = v)) (adjList s ! u)])
        [v := filter (\<lambda>p. \<not> (fst p = u))
                (((adjList s)[u := filter (\<lambda>p. \<not> (fst p = v)) (adjList s ! u)]) ! v)] \<rparr>)"
  using assms by (simp add: removeRoute_def Let_def)

lemma removeRoute_missing:
  assumes "locationToIndex s from = None \<or> locationToIndex s to = None"
  shows "removeRoute s from to = (Inl LocationNotFound, s)"
  using assms by (auto simp: removeRoute_def split: option.splits)

lemma removeLocation_found:
  assumes "locationToIndex s name = Some idx"
    and "idx < length (adjList s)" and "idx < length (indexToLocation s)"
  shows "removeLocation s name =
     (Inr (), s\<lparr> locationToIndex := rebuild_index (erase_at idx (indexToLocation s)),
                 indexToLocation := erase_at idx (indexToLocation s),
                 adjList := map (adjust_row idx) (erase_at idx (adjList s)),
                 locationCount := locationCount s - 1 \<rparr>)"
  using assms by (simp add: removeLocation_def Let_def)

subsection \<open>Rows after adding and removing a route\<close>

lemma add_rows_nth:
  assumes "u < length adj" and "v < length adj" and "x < length adj"
  shows "(adj[u := adj ! u @ [a]])[v := (adj[u := adj ! u @ [a]]) ! v @ [b]] ! x =
     adj ! x @ (if x = u then [a] else []) @ (if x = v then [b] else [])"
  using assms by (auto simp: nth_list_update)

lemma remove_rows_nth:
  assumes "u < length adj" and "v < length adj" and "x < length adj"
  shows "(adj[u := filter (\<lambda>p. \<not> (fst p = v)) (adj ! u)])
           [v := filter (\<lambda>p. \<not> (fst p = u))
                   ((adj[u := filter (\<lambda>p. \<not> (fst p = v)) (adj ! u)]) ! v)] ! x =
     filter (\<lambda>p. \<not> (x = u \<and> fst p = v) \<and> \<not> (x = v \<and> fst p = u)) (adj ! x)"
  using assms by (auto simp: nth_list_update intro: filter_cong)

lemma count_list_filter:
  "count_list (filter P xs) y = (if P y then count_list xs y else 0)"
  by (induction xs) auto

lemma count_list_map_inj:
  "(\<And>z. z \<in> set xs \<Longrightarrow> g z = y \<longleftrightarrow> z = x) \<Longrightarrow> count_list (map g xs) y = count_list xs x"
  by (induction xs) auto

subsection \<open>addRoute\<close>

lemma wf_addRoute:
  assumes "wf s"
  shows "wf (snd (addRoute s from to cost))"
proof (cases "locationToIndex s from = None \<or> locationToIndex s to = None")
  case True
  with assms show ?thesis by (simp add: addRoute_missing)
next
  case False
  then obtain u v where u: "locationToIndex s from = Some u" and v: "locationToIndex s to = Some v"
    by auto
  from assms have nm: "names_ok s" and ao: "adj_ok s" and sy: "symmetric s"
    by (simp_all add: wf_def)
  from ao have len: "length (adjList s) = locationCount s" by (simp add: adj_ok_def)
  from names_ok_lookup [OF nm u] names_ok_lookup [OF nm v] len
  have ul: "u < length (adjList s)" and vl: "v < length (adjList s)" by simp_all
  let ?adj = "adjList s"
  let ?adj2 = "(?adj[u := ?adj ! u @ [(v, cost)]])[v := (?adj[u := ?adj ! u @ [(v, cost)]]) ! v @ [(u, cost)]]"
  have s': "snd (addRoute s from to cost) = s\<lparr> adjList := ?adj2 \<rparr>"
    by (simp add: addRoute_found [OF u v ul vl])
  have rows: "?adj2 ! x = ?adj ! x @ (if x = u then [(v, cost)] else []) @ (if x = v then [(u, cost)] else [])"
    if "x < length ?adj" for x
    by (rule add_rows_nth [OF ul vl that])
  have "names_ok (s\<lparr> adjList := ?adj2 \<rparr>)"
    using nm by (simp add: names_ok_def)
  moreover have "adj_ok (s\<lparr> adjList := ?adj2 \<rparr>)"
    unfolding adj_ok_def
  proof (intro conjI ballI)
    show "length (adjList (s\<lparr> adjList := ?adj2 \<rparr>)) = locationCount (s\<lparr> adjList := ?adj2 \<rparr>)"
      using len by simp
  next
    fix row p
    assume "row \<in> set (adjList (s\<lparr> adjList := ?adj2 \<rparr>))" and p: "p \<in> set row"
    then obtain x where x: "x < length ?adj" and row: "row = ?adj2 ! x"
      by (auto simp: in_set_conv_nth)
    from ao x have "\<forall>q \<in> set (?adj ! x). fst q < locationCount s"
      by (auto simp: adj_ok_def)
    with p row rows [OF x] ul vl len
    show "fst p < locationCount (s\<lparr> adjList := ?adj2 \<rparr>)"
      by (auto split: if_splits)
  qed
  moreover have "symmetric (s\<lparr> adjList := ?adj2 \<rparr>)"
    unfolding symmetric_def
  proof (intro allI impI)
    fix x y c
    assume "x < locationCount (s\<lparr> adjList := ?adj2 \<rparr>)" and "y < locationCount (s\<lparr> adjList := ?adj2 \<rparr>)"
    then have x: "x < length ?adj" and y: "y < length ?adj" using len by simp_all
    from sy x y len have "count_list (?adj ! x) (y, c) = count_list (?adj ! y) (x, c)"
      by (simp add: symmetric_def)
    then show "count_list (adjList (s\<lparr> adjList := ?adj2 \<rparr>) ! x) (y, c) =
               count_list (adjList (s\<lparr> adjList := ?adj2 \<rparr>) ! y) (x, c)"
      by (auto simp: rows [OF x] rows [OF y])
  qed
  ultimately show ?thesis by (simp add: s' wf_def)
qed

subsection \<open>removeRoute\<close>

lemma wf_removeRoute:
  assumes "wf s"
  shows "wf (snd (removeRoute s from to))"
proof (cases "locationToIndex s from = None \<or> locationToIndex s to = None")
  case True
  with assms show ?thesis by (simp add: removeRoute_missing)
next
  case False
  then obtain u v where u: "locationToIndex s from = Some u" and v: "locationToIndex s to = Some v"
    by auto
  from assms have nm: "names_ok s" and ao: "adj_ok s" and sy: "symmetric s"
    by (simp_all add: wf_def)
  from ao have len: "length (adjList s) = locationCount s" by (simp add: adj_ok_def)
  from names_ok_lookup [OF nm u] names_ok_lookup [OF nm v] len
  have ul: "u < length (adjList s)" and vl: "v < length (adjList s)" by simp_all
  let ?adj = "adjList s"
  let ?adj1 = "?adj[u := filter (\<lambda>p. \<not> (fst p = v)) (?adj ! u)]"
  let ?adj2 = "?adj1[v := filter (\<lambda>p. \<not> (fst p = u)) (?adj1 ! v)]"
  have s': "snd (removeRoute s from to) = s\<lparr> adjList := ?adj2 \<rparr>"
    by (simp add: removeRoute_found [OF u v ul vl])
  have rows: "?adj2 ! x =
      filter (\<lambda>p. \<not> (x = u \<and> fst p = v) \<and> \<not> (x = v \<and> fst p = u)) (?adj ! x)"
    if "x < length ?adj" for x
    by (rule remove_rows_nth [OF ul vl that])
  have "names_ok (s\<lparr> adjList := ?adj2 \<rparr>)"
    using nm by (simp add: names_ok_def)
  moreover have "adj_ok (s\<lparr> adjList := ?adj2 \<rparr>)"
    unfolding adj_ok_def
  proof (intro conjI ballI)
    show "length (adjList (s\<lparr> adjList := ?adj2 \<rparr>)) = locationCount (s\<lparr> adjList := ?adj2 \<rparr>)"
      using len by simp
  next
    fix row p
    assume "row \<in> set (adjList (s\<lparr> adjList := ?adj2 \<rparr>))" and p: "p \<in> set row"
    then obtain x where x: "x < length ?adj" and row: "row = ?adj2 ! x"
      by (auto simp: in_set_conv_nth)
    from ao x have "\<forall>q \<in> set (?adj ! x). fst q < locationCount s"
      by (auto simp: adj_ok_def)
    with p row rows [OF x]
    show "fst p < locationCount (s\<lparr> adjList := ?adj2 \<rparr>)"
      by auto
  qed
  moreover have "symmetric (s\<lparr> adjList := ?adj2 \<rparr>)"
    unfolding symmetric_def
  proof (intro allI impI)
    fix x y c
    assume "x < locationCount (s\<lparr> adjList := ?adj2 \<rparr>)" and "y < locationCount (s\<lparr> adjList := ?adj2 \<rparr>)"
    then have x: "x < length ?adj" and y: "y < length ?adj" using len by simp_all
    from sy x y len have "count_list (?adj ! x) (y, c) = count_list (?adj ! y) (x, c)"
      by (simp add: symmetric_def)
    then show "count_list (adjList (s\<lparr> adjList := ?adj2 \<rparr>) ! x) (y, c) =
               count_list (adjList (s\<lparr> adjList := ?adj2 \<rparr>) ! y) (x, c)"
      by (auto simp: rows [OF x] rows [OF y] count_list_filter)
  qed
  ultimately show ?thesis by (simp add: s' wf_def)
qed


subsection \<open>removeLocation\<close>

text \<open>The handle a surviving location had before the row \<open>idx\<close> was erased.\<close>

definition old_handle :: "nat \<Rightarrow> nat \<Rightarrow> nat" where
  "old_handle idx h = (if h < idx then h else Suc h)"

lemma erase_at_length: "idx < length xs \<Longrightarrow> length (erase_at idx xs) = length xs - 1"
  by (simp add: erase_at_def)

lemma erase_at_nth:
  "idx < length xs \<Longrightarrow> h < length xs - 1 \<Longrightarrow> erase_at idx xs ! h = xs ! old_handle idx h"
  by (auto simp: erase_at_def old_handle_def nth_append min_def)

lemma erase_at_distinct: "distinct xs \<Longrightarrow> distinct (erase_at idx xs)"
proof -
  assume d: "distinct xs"
  have "set (take idx xs) \<inter> set (drop idx xs) = {}"
    using d distinct_append [of "take idx xs" "drop idx xs"] by simp
  moreover have "set (drop (Suc idx) xs) \<subseteq> set (drop idx xs)"
    by (simp add: set_drop_subset_set_drop)
  ultimately show ?thesis using d by (auto simp: erase_at_def)
qed


lemma rebuild_prefix:
  assumes "distinct names" and "k \<le> length names"
  shows "fold (\<lambda>i m. m(names ! i \<mapsto> i)) [0..<k] Map.empty name = Some h \<longleftrightarrow>
           h < k \<and> names ! h = name"
  using assms(2)
proof (induction k arbitrary: name h)
  case 0
  then show ?case by simp
next
  case (Suc k)
  then have k: "k < length names" by simp
  define m where "m = fold (\<lambda>i m. m(names ! i \<mapsto> i)) [0..<k] Map.empty"
  have step: "fold (\<lambda>i m. m(names ! i \<mapsto> i)) [0..<Suc k] Map.empty = m(names ! k \<mapsto> k)"
    unfolding m_def by simp
  have IH: "m nm = Some j \<longleftrightarrow> j < k \<and> names ! j = nm" for nm j
    unfolding m_def by (rule Suc.IH) (use Suc.prems in simp)
  show ?case
  proof (cases "name = names ! k")
    case True
    have "names ! h = names ! k \<longleftrightarrow> h = k" if "h < Suc k"
      using that k assms(1) by (simp add: nth_eq_iff_index_eq)
    with True show ?thesis unfolding step by auto
  next
    case False
    with IH [of name h] show ?thesis unfolding step by (auto simp: less_Suc_eq)
  qed
qed

lemma rebuild_index_iff:
  "distinct names \<Longrightarrow> rebuild_index names name = Some h \<longleftrightarrow> h < length names \<and> names ! h = name"
  unfolding rebuild_index_def by (rule rebuild_prefix) simp_all

lemma count_adjust_row:
  "count_list (adjust_row idx row) (v, c) = count_list row (old_handle idx v, c)"
proof -
  let ?P = "\<lambda>p::nat \<times> int. \<not> (fst p = idx)"
  let ?g = "\<lambda>p::nat \<times> int. if fst p > idx then (fst p - 1, snd p) else p"
  have "count_list (map ?g (filter ?P row)) (v, c) =
        count_list (filter ?P row) (old_handle idx v, c)"
    by (rule count_list_map_inj) (auto simp: old_handle_def)
  also have "\<dots> = count_list row (old_handle idx v, c)"
    by (simp add: count_list_filter old_handle_def)
  finally show ?thesis by (simp add: adjust_row_def)
qed

lemma adjust_row_targets:
  assumes "\<forall>p \<in> set row. fst p < n" and "idx < n" and "q \<in> set (adjust_row idx row)"
  shows "fst q < n - 1"
  using assms by (fastforce simp: adjust_row_def split: if_splits)

lemma wf_removeLocation:
  assumes "wf s"
  shows "wf (snd (removeLocation s name))"
proof (cases "locationToIndex s name")
  case None
  with assms show ?thesis by (simp add: removeLocation_def)
next
  case (Some idx)
  from assms have nm: "names_ok s" and ao: "adj_ok s" and sy: "symmetric s"
    by (simp_all add: wf_def)
  let ?n = "locationCount s"
  from ao have len: "length (adjList s) = ?n" by (simp add: adj_ok_def)
  from nm have nlen: "length (indexToLocation s) = ?n" and dist: "distinct (indexToLocation s)"
    by (simp_all add: names_ok_def)
  from names_ok_lookup [OF nm Some] have idx: "idx < ?n" by simp
  let ?names = "erase_at idx (indexToLocation s)"
  let ?adj = "map (adjust_row idx) (erase_at idx (adjList s))"
  let ?s' = "s\<lparr> locationToIndex := rebuild_index ?names, indexToLocation := ?names,
                adjList := ?adj, locationCount := ?n - 1 \<rparr>"
  have s': "snd (removeLocation s name) = ?s'"
    using removeLocation_found [OF Some] idx len nlen by simp
  have old: "old_handle idx h < ?n" if "h < ?n - 1" for h
    using that by (auto simp: old_handle_def)
  have rows: "?adj ! h = adjust_row idx (adjList s ! old_handle idx h)" if "h < ?n - 1" for h
    using that idx len by (simp add: erase_at_length erase_at_nth)
  have "names_ok ?s'"
    unfolding names_ok_def
    using idx nlen dist
    by (simp add: erase_at_length erase_at_distinct rebuild_index_iff)
  moreover have "adj_ok ?s'"
    unfolding adj_ok_def
  proof (intro conjI ballI)
    show "length (adjList ?s') = locationCount ?s'"
      using idx len by (simp add: erase_at_length)
  next
    fix row p
    assume "row \<in> set (adjList ?s')" and p: "p \<in> set row"
    then obtain h where h: "h < ?n - 1" and row: "row = ?adj ! h"
      using idx len by (auto simp: in_set_conv_nth erase_at_length)
    from ao old [OF h] len have "\<forall>q \<in> set (adjList s ! old_handle idx h). fst q < ?n"
      by (auto simp: adj_ok_def)
    from adjust_row_targets [OF this idx] p row rows [OF h]
    show "fst p < locationCount ?s'" by simp
  qed
  moreover have "symmetric ?s'"
    unfolding symmetric_def
  proof (intro allI impI)
    fix x y c
    assume "x < locationCount ?s'" and "y < locationCount ?s'"
    then have x: "x < ?n - 1" and y: "y < ?n - 1" by simp_all
    from sy old [OF x] old [OF y]
    have "count_list (adjList s ! old_handle idx x) (old_handle idx y, c) =
          count_list (adjList s ! old_handle idx y) (old_handle idx x, c)"
      by (simp add: symmetric_def)
    then show "count_list (adjList ?s' ! x) (y, c) = count_list (adjList ?s' ! y) (x, c)"
      using rows [OF x] rows [OF y] by (simp add: count_adjust_row)
  qed
  ultimately show ?thesis by (simp add: s' wf_def)
qed

subsection \<open>Every state the menu can reach\<close>

lemma wf_exec: "wf s \<Longrightarrow> wf (snd (exec s c))"
  by (cases c)
    (simp_all add: lift_unit_def wf_addLocation wf_removeLocation wf_addRoute wf_removeRoute)

lemma wf_run_from: "wf s \<Longrightarrow> wf (run s cs)"
  by (induction cs arbitrary: s) (simp_all add: wf_exec)

lemma wf_run: "wf (run init cs)"
  by (rule wf_run_from [OF wf_init])

section \<open>Properties\<close>

text \<open>The graph of the worked example: A-B cost 1, B-C cost 2, A-C cost 5.\<close>

definition example_graph :: dpo where
  "example_graph = run init [AddLocation ''A'', AddLocation ''B'', AddLocation ''C'',
     AddRoute ''A'' ''B'' 1, AddRoute ''B'' ''C'' 2, AddRoute ''A'' ''C'' 5]"

text \<open>
  Claim C1. On the example graph the query from A finds the location A at handle 0,
  computes the distances 0, 1 and 3 (C through B, not along the direct route of cost 5),
  and prints for each location its distance and five times that distance.
\<close>

theorem example_plan:
  "locationToIndex example_graph ''A'' = Some 0 \<and>
   dijkstra_loop (adjList example_graph) ((replicate 3 INT_MAX)[0 := 0]) [(0, 0)] = Inr [0, 1, 3] \<and>
   exec example_graph (OptimizeDeliveryPlan ''A'') =
     (Inr (Plan [(''A'', ETA 0 (0 * 5)), (''B'', ETA 1 (1 * 5)), (''C'', ETA 3 (3 * 5))]),
      example_graph)"
proof -
  have a: "locationToIndex example_graph ''A'' = Some 0" by code_simp
  have b: "dijkstra_loop (adjList example_graph) ((replicate 3 INT_MAX)[0 := 0]) [(0, 0)] =
      Inr [0, 1, 3]" by code_simp
  have c: "optimizeDeliveryPlan example_graph ''A'' =
      Inr [(''A'', ETA 0 (0 * 5)), (''B'', ETA 1 (1 * 5)), (''C'', ETA 3 (3 * 5))]" by code_simp
  show ?thesis using a b c by simp
qed

text \<open>
  Claim C2. After any sequence of commands from the empty optimizer, a name that has a
  handle is found again at that handle in the name list, the names with a handle are
  the names of the list, the handles in use are exactly \<open>0, ..., count - 1\<close>, and two
  names never share a handle.
\<close>

theorem bijection_invariant:
  "(\<forall>name h. locationToIndex (run init cs) name = Some h \<longrightarrow>
       h < locationCount (run init cs) \<and> indexToLocation (run init cs) ! h = name) \<and>
   dom (locationToIndex (run init cs)) = set (indexToLocation (run init cs)) \<and>
   ran (locationToIndex (run init cs)) = {0..<locationCount (run init cs)} \<and>
   inj_on (locationToIndex (run init cs)) (dom (locationToIndex (run init cs))) \<and>
   length (indexToLocation (run init cs)) = locationCount (run init cs)"
proof -
  let ?s = "run init cs"
  have nm: "names_ok ?s" using wf_run [of cs] by (simp add: wf_def)
  then have len: "length (indexToLocation ?s) = locationCount ?s"
    and m: "\<And>name h. locationToIndex ?s name = Some h \<longleftrightarrow>
        h < locationCount ?s \<and> indexToLocation ?s ! h = name"
    by (simp_all add: names_ok_def)
  have d: "dom (locationToIndex ?s) = set (indexToLocation ?s)"
    using m len by (auto simp: dom_def in_set_conv_nth)
  have r: "ran (locationToIndex ?s) = {0..<locationCount ?s}"
    using m by (auto simp: ran_def)
  have i: "inj_on (locationToIndex ?s) (dom (locationToIndex ?s))"
  proof (rule inj_onI)
    fix a b
    assume "a \<in> dom (locationToIndex ?s)" and "b \<in> dom (locationToIndex ?s)"
      and eq: "locationToIndex ?s a = locationToIndex ?s b"
    then obtain h where "locationToIndex ?s a = Some h" and "locationToIndex ?s b = Some h"
      by auto
    with m [of a h] m [of b h] show "a = b" by simp
  qed
  from m d r i len show ?thesis by blast
qed

text \<open>After adding A and B and removing A, the location B has handle 0, the only one in use.\<close>

theorem bijection_invariant_witness:
  "locationToIndex (run init [AddLocation ''A'', AddLocation ''B'', RemoveLocation ''A'']) ''B''
     = Some 0 \<and>
   indexToLocation (run init [AddLocation ''A'', AddLocation ''B'', RemoveLocation ''A'']) ! 0
     = ''B'' \<and>
   ran (locationToIndex (run init [AddLocation ''A'', AddLocation ''B'', RemoveLocation ''A'']))
     = {0..<1}"
proof -
  let ?cs = "[AddLocation ''A'', AddLocation ''B'', RemoveLocation ''A'']"
  have a: "locationToIndex (run init ?cs) ''B'' = Some 0" by code_simp
  have b: "locationCount (run init ?cs) = 1" by code_simp
  from bijection_invariant [of ?cs] a b show ?thesis by simp
qed

lemma count_costs:
  "count (mset (map snd (filter (\<lambda>p. fst p = v) xs))) c = count_list xs (v, c)"
  by (induction xs) (auto simp: prod_eq_iff)

lemma count_mset_list: "count (mset xs) x = count_list xs x"
  by (induction xs) auto

text \<open>
  Claim C3. After any sequence of commands, for two live handles \<open>u\<close> and \<open>v\<close>
  and a cost \<open>c\<close>, the row of \<open>u\<close> holds the entry \<open>(v, c)\<close> as many times as the
  row of \<open>v\<close> holds \<open>(u, c)\<close>: the costs of the routes from \<open>u\<close> to \<open>v\<close> and of
  the routes from \<open>v\<close> to \<open>u\<close> are the same multiset.
\<close>

theorem symmetry_invariant:
  assumes "u < locationCount (run init cs)" and "v < locationCount (run init cs)"
  shows "count (mset (adjList (run init cs) ! u)) (v, c) =
           count (mset (adjList (run init cs) ! v)) (u, c) \<and>
         mset (map snd (filter (\<lambda>p. fst p = v) (adjList (run init cs) ! u))) =
           mset (map snd (filter (\<lambda>p. fst p = u) (adjList (run init cs) ! v)))"
proof -
  let ?s = "run init cs"
  have "symmetric ?s" using wf_run [of cs] by (simp add: wf_def)
  with assms have eq: "count_list (adjList ?s ! u) (v, c') = count_list (adjList ?s ! v) (u, c')"
    for c'
    by (simp add: symmetric_def)
  have "mset (map snd (filter (\<lambda>p. fst p = v) (adjList ?s ! u))) =
        mset (map snd (filter (\<lambda>p. fst p = u) (adjList ?s ! v)))"
    by (rule multiset_eqI) (simp only: count_costs eq)
  with eq [of c] show ?thesis by (simp only: count_mset_list)
qed

text \<open>
  Two routes of cost 7 between A and B, added in opposite directions: two entries on each side.
\<close>

theorem symmetry_invariant_witness:
  "count (mset (adjList (run init [AddLocation ''A'', AddLocation ''B'',
      AddRoute ''A'' ''B'' 7, AddRoute ''B'' ''A'' 7]) ! 0)) (1, 7) = 2 \<and>
   count (mset (adjList (run init [AddLocation ''A'', AddLocation ''B'',
      AddRoute ''A'' ''B'' 7, AddRoute ''B'' ''A'' 7]) ! 1)) (0, 7) = 2"
proof -
  let ?cs = "[AddLocation ''A'', AddLocation ''B'', AddRoute ''A'' ''B'' 7, AddRoute ''B'' ''A'' 7]"
  have n: "locationCount (run init ?cs) = 2" by code_simp
  have a: "adjList (run init ?cs) ! 0 = [(1, 7), (1, 7)]" by code_simp
  from symmetry_invariant [of 0 ?cs 1 7] n a show ?thesis by simp
qed

text \<open>
  Claim C5. In any reachable state, a route from an existing location to itself with
  any cost is accepted; it appends the entry (own handle, cost) to the location's own
  row, once for each of the two \<open>push_back\<close> calls.
\<close>

theorem self_route:
  assumes "locationToIndex (run init cs) L = Some h"
  shows "addRoute (run init cs) L L c =
           (Inr (), (run init cs)\<lparr> adjList :=
              (adjList (run init cs))[h := adjList (run init cs) ! h @ [(h, c), (h, c)]] \<rparr>) \<and>
         (h, c) \<in> set (adjList (snd (addRoute (run init cs) L L c)) ! h)"
proof -
  let ?s = "run init cs"
  have w: "wf ?s" by (rule wf_run)
  then have nm: "names_ok ?s" and len: "length (adjList ?s) = locationCount ?s"
    by (simp_all add: wf_def adj_ok_def)
  from names_ok_lookup [OF nm assms] len have h: "h < length (adjList ?s)" by simp
  have "addRoute ?s L L c =
      (Inr (), ?s\<lparr> adjList := (adjList ?s)[h := adjList ?s ! h @ [(h, c), (h, c)]] \<rparr>)"
    using h by (simp add: addRoute_found [OF assms assms h h])
  then show ?thesis using h by simp
qed

text \<open>
  A self-route of cost -3 on the only location.
\<close>

theorem self_route_witness:
  "addRoute (run init [AddLocation ''A'']) ''A'' ''A'' (- 3) =
     (Inr (), (run init [AddLocation ''A''])\<lparr> adjList := [[(0, - 3), (0, - 3)]] \<rparr>)"
proof -
  have a: "locationToIndex (run init [AddLocation ''A'']) ''A'' = Some 0" by code_simp
  have b: "adjList (run init [AddLocation ''A'']) = [[]]" by code_simp
  from self_route [OF a, of "- 3"] b show ?thesis by simp
qed

text \<open>
  Claim C9. Adding a name that is present reports \<open>DuplicateLocation\<close>; removing a
  location, querying from a location, and adding or removing a route with an unknown
  name report \<open>LocationNotFound\<close>; and no command that reports an error changes the
  state.
\<close>

theorem errors_are_atomic:
  "(locationToIndex s name \<noteq> None \<longrightarrow>
      exec s (AddLocation name) = (Inl DuplicateLocation, s)) \<and>
   (locationToIndex s name = None \<longrightarrow>
      exec s (RemoveLocation name) = (Inl LocationNotFound, s) \<and>
      exec s (OptimizeDeliveryPlan name) = (Inl LocationNotFound, s) \<and>
      exec s (SimulateRoute name) = (Inl LocationNotFound, s)) \<and>
   (locationToIndex s from = None \<or> locationToIndex s to = None \<longrightarrow>
      exec s (AddRoute from to cost) = (Inl LocationNotFound, s) \<and>
      exec s (RemoveRoute from to) = (Inl LocationNotFound, s)) \<and>
   (\<forall>e. fst (exec s cmd) = Inl e \<longrightarrow> snd (exec s cmd) = s)"
proof -
  have "snd (exec s cmd) = s" if "fst (exec s cmd) = Inl e" for e
    using that
    by (cases cmd)
      (auto simp: lift_unit_def addLocation_def removeLocation_def addRoute_def removeRoute_def
        Let_def split: option.splits if_splits)
  then show ?thesis
    by (auto simp: lift_unit_def addLocation_def removeLocation_def addRoute_missing
        removeRoute_missing optimizeDeliveryPlan_def simulateDelivery_def)
qed

text \<open>
  With only A present: adding A again, and every operation that names B, fail and change nothing.
\<close>

theorem errors_are_atomic_witness:
  "exec (run init [AddLocation ''A'']) (AddLocation ''A'') =
     (Inl DuplicateLocation, run init [AddLocation ''A'']) \<and>
   exec (run init [AddLocation ''A'']) (RemoveLocation ''B'') =
     (Inl LocationNotFound, run init [AddLocation ''A'']) \<and>
   exec (run init [AddLocation ''A'']) (OptimizeDeliveryPlan ''B'') =
     (Inl LocationNotFound, run init [AddLocation ''A'']) \<and>
   exec (run init [AddLocation ''A'']) (SimulateRoute ''B'') =
     (Inl LocationNotFound, run init [AddLocation ''A'']) \<and>
   exec (run init [AddLocation ''A'']) (AddRoute ''A'' ''B'' 4) =
     (Inl LocationNotFound, run init [AddLocation ''A'']) \<and>
   exec (run init [AddLocation ''A'']) (RemoveRoute ''B'' ''A'') =
     (Inl LocationNotFound, run init [AddLocation ''A''])"
proof -
  let ?s = "run init [AddLocation ''A'']"
  have a: "locationToIndex ?s ''A'' = Some 0" by code_simp
  have b: "locationToIndex ?s ''B'' = None" by code_simp
  from errors_are_atomic [of ?s "''A''" "''A''" "''B''" 4 ShowLocations]
    errors_are_atomic [of ?s "''B''" "''B''" "''A''" 4 ShowLocations] a b
  show ?thesis by simp
qed



lemma run_append: "run s (cs @ ds) = run (run s cs) ds"
  by (induction cs arbitrary: s) simp_all

lemma run_snoc: "run s (cs @ [c]) = snd (exec (run s cs) c)"
  by (simp add: run_append)

text \<open>
  Claim C6. In any reachable state with both locations present, adding the same route
  twice succeeds and leaves at least two entries for it; one \<open>removeRoute\<close> then
  succeeds and leaves no entry between the two locations in either direction.
\<close>

theorem duplicate_route_removal:
  assumes "locationToIndex (run init cs) from = Some u"
    and "locationToIndex (run init cs) to = Some v"
  shows "fst (exec (run init cs) (AddRoute from to c)) = Inr Done \<and>
         fst (exec (run init (cs @ [AddRoute from to c])) (AddRoute from to c)) = Inr Done \<and>
         2 \<le> count_list
                (adjList (run init (cs @ [AddRoute from to c, AddRoute from to c])) ! u) (v, c) \<and>
         fst (exec (run init (cs @ [AddRoute from to c, AddRoute from to c]))
                (RemoveRoute from to)) = Inr Done \<and>
         filter (\<lambda>p. fst p = v)
           (adjList (run init (cs @ [AddRoute from to c, AddRoute from to c,
              RemoveRoute from to])) ! u) = [] \<and>
         filter (\<lambda>p. fst p = u)
           (adjList (run init (cs @ [AddRoute from to c, AddRoute from to c,
              RemoveRoute from to])) ! v) = []"
proof -
  let ?s = "run init cs"
  define s1 where "s1 = snd (addRoute ?s from to c)"
  define s2 where "s2 = snd (addRoute s1 from to c)"
  define s3 where "s3 = snd (removeRoute s2 from to)"
  have r1: "run init (cs @ [AddRoute from to c]) = s1"
    by (simp add: run_append lift_unit_def s1_def)
  have r2: "run init (cs @ [AddRoute from to c, AddRoute from to c]) = s2"
    by (simp add: run_append lift_unit_def s1_def s2_def)
  have r3: "run init (cs @ [AddRoute from to c, AddRoute from to c, RemoveRoute from to]) = s3"
    by (simp add: run_append lift_unit_def s1_def s2_def s3_def)
  have w: "wf ?s" by (rule wf_run)
  then have nm: "names_ok ?s" and len: "length (adjList ?s) = locationCount ?s"
    by (simp_all add: wf_def adj_ok_def)
  from names_ok_lookup [OF nm assms(1)] names_ok_lookup [OF nm assms(2)] len
  have ul: "u < length (adjList ?s)" and vl: "v < length (adjList ?s)" by simp_all
  note a1 = addRoute_found [OF assms ul vl, of c]
  have m1: "locationToIndex s1 = locationToIndex ?s" and l1: "length (adjList s1) = length (adjList ?s)"
    by (simp_all add: s1_def a1)
  have u1: "locationToIndex s1 from = Some u" and v1: "locationToIndex s1 to = Some v"
    and ul1: "u < length (adjList s1)" and vl1: "v < length (adjList s1)"
    using assms ul vl by (simp_all add: m1 l1)
  note a2 = addRoute_found [OF u1 v1 ul1 vl1, of c]
  have m2: "locationToIndex s2 = locationToIndex ?s" and l2: "length (adjList s2) = length (adjList ?s)"
    by (simp_all add: s2_def a2 m1 l1)
  have u2: "locationToIndex s2 from = Some u" and v2: "locationToIndex s2 to = Some v"
    and ul2: "u < length (adjList s2)" and vl2: "v < length (adjList s2)"
    using assms ul vl by (simp_all add: m2 l2)
  note a3 = removeRoute_found [OF u2 v2 ul2 vl2]
  have row1: "adjList s1 ! u = adjList ?s ! u @ [(v, c)] @ (if u = v then [(u, c)] else [])"
    using add_rows_nth [OF ul vl ul, of "(v, c)" "(u, c)"] by (simp add: s1_def a1)
  have row2: "adjList s2 ! u = adjList s1 ! u @ [(v, c)] @ (if u = v then [(u, c)] else [])"
    using add_rows_nth [OF ul1 vl1 ul1, of "(v, c)" "(u, c)"] by (simp add: s2_def a2)
  have two: "2 \<le> count_list (adjList s2 ! u) (v, c)"
    by (simp add: row1 row2)
  have row3u: "adjList s3 ! u = filter (\<lambda>p. \<not> (fst p = v) \<and> \<not> (u = v \<and> fst p = u)) (adjList s2 ! u)"
    using remove_rows_nth [OF ul2 vl2 ul2] by (simp add: s3_def a3)
  have row3v: "adjList s3 ! v = filter (\<lambda>p. \<not> (v = u \<and> fst p = v) \<and> \<not> (fst p = u)) (adjList s2 ! v)"
    using remove_rows_nth [OF ul2 vl2 vl2] by (simp add: s3_def a3)
  have e1: "fst (exec ?s (AddRoute from to c)) = Inr Done"
    by (simp add: lift_unit_def a1)
  have e2: "fst (exec s1 (AddRoute from to c)) = Inr Done"
    by (simp add: lift_unit_def a2)
  have e3: "fst (exec s2 (RemoveRoute from to)) = Inr Done"
    by (simp add: lift_unit_def a3)
  have f1: "filter (\<lambda>p. fst p = v) (adjList s3 ! u) = []"
    by (auto simp: row3u filter_empty_conv)
  have f2: "filter (\<lambda>p. fst p = u) (adjList s3 ! v) = []"
    by (auto simp: row3v filter_empty_conv)
  from e1 e2 e3 two f1 f2 show ?thesis by (simp only: r1 r2 r3 simp_thms)
qed

text \<open>
  Two routes A-B of cost 4, then one removal.
\<close>

theorem duplicate_route_removal_witness:
  "adjList (run init [AddLocation ''A'', AddLocation ''B'', AddRoute ''A'' ''B'' 4,
      AddRoute ''A'' ''B'' 4]) = [[(1, 4), (1, 4)], [(0, 4), (0, 4)]] \<and>
   filter (\<lambda>p. fst p = 1)
     (adjList (run init [AddLocation ''A'', AddLocation ''B'', AddRoute ''A'' ''B'' 4,
        AddRoute ''A'' ''B'' 4, RemoveRoute ''A'' ''B'']) ! 0) = [] \<and>
   filter (\<lambda>p. fst p = 0)
     (adjList (run init [AddLocation ''A'', AddLocation ''B'', AddRoute ''A'' ''B'' 4,
        AddRoute ''A'' ''B'' 4, RemoveRoute ''A'' ''B'']) ! 1) = []"
proof -
  let ?cs = "[AddLocation ''A'', AddLocation ''B'']"
  have a: "locationToIndex (run init ?cs) ''A'' = Some 0" by code_simp
  have b: "locationToIndex (run init ?cs) ''B'' = Some 1" by code_simp
  have c: "adjList (run init [AddLocation ''A'', AddLocation ''B'', AddRoute ''A'' ''B'' 4,
      AddRoute ''A'' ''B'' 4]) = [[(1, 4), (1, 4)], [(0, 4), (0, 4)]]" by code_simp
  from duplicate_route_removal [OF a b, of 4] c show ?thesis by simp
qed

section \<open>Correctness of the traversal\<close>

text \<open>The directed edge relation of an adjacency table: \<open>u\<close> has an entry that points at \<open>v\<close>.\<close>

definition edges :: "(nat \<times> int) list list \<Rightarrow> (nat \<times> nat) set" where
  "edges adj = {(u, v). u < length adj \<and> (\<exists>c. (v, c) \<in> set (adj ! u))}"

text \<open>The entries of a list, each kept at its first occurrence only.\<close>

definition first_occurrences :: "'a list \<Rightarrow> 'a list" where
  "first_occurrences xs = rev (remdups (rev xs))"

lemma remdups_snoc: "remdups (xs @ [x]) = remdups (filter (\<lambda>y. y \<noteq> x) xs) @ [x]"
  by (induction xs) auto

lemma first_occurrences_Cons:
  "first_occurrences (x # xs) = x # first_occurrences (filter (\<lambda>y. y \<noteq> x) xs)"
  by (simp add: first_occurrences_def remdups_snoc rev_filter)

lemma first_occurrences_Nil: "first_occurrences [] = []"
  by (simp add: first_occurrences_def)

lemma first_occurrences_set: "set (first_occurrences xs) = set xs"
  by (simp add: first_occurrences_def)

lemma first_occurrences_distinct: "distinct (first_occurrences xs)"
  by (simp add: first_occurrences_def)

lemma visit_neighbors_result:
  assumes "\<forall>p \<in> set row. fst p < length visited"
  shows "\<exists>visited'. visit_neighbors row visited q =
           Inr (visited', q @ first_occurrences (filter (\<lambda>v. \<not> visited ! v) (map fst row))) \<and>
           length visited' = length visited \<and>
           (\<forall>i < length visited. visited' ! i \<longleftrightarrow> visited ! i \<or> i \<in> fst ` set row)"
  using assms
proof (induction row arbitrary: visited q)
  case Nil
  then show ?case by (simp add: first_occurrences_Nil)
next
  case (Cons e row)
  obtain v c where e: "e = (v, c)" by (cases e)
  from Cons.prems e have v: "v < length visited"
    and rest: "\<forall>p \<in> set row. fst p < length visited" by simp_all
  show ?case
  proof (cases "visited ! v")
    case True
    from Cons.IH [OF rest, of q] obtain visited' where
      r: "visit_neighbors row visited q =
            Inr (visited', q @ first_occurrences (filter (\<lambda>v. \<not> visited ! v) (map fst row)))"
      and l: "length visited' = length visited"
      and m: "\<forall>i < length visited. visited' ! i \<longleftrightarrow> visited ! i \<or> i \<in> fst ` set row"
      by blast
    from m True have "\<forall>i < length visited. visited' ! i \<longleftrightarrow> visited ! i \<or> i \<in> fst ` set (e # row)"
      using e by auto
    with r l True v e show ?thesis by simp
  next
    case False
    let ?vis = "visited[v := True]"
    from rest have rest': "\<forall>p \<in> set row. fst p < length ?vis" by simp
    from Cons.IH [OF rest', of "q @ [v]"] obtain visited' where
      r: "visit_neighbors row ?vis (q @ [v]) =
            Inr (visited', (q @ [v]) @ first_occurrences (filter (\<lambda>w. \<not> ?vis ! w) (map fst row)))"
      and l: "length visited' = length ?vis"
      and m: "\<forall>i < length ?vis. visited' ! i \<longleftrightarrow> ?vis ! i \<or> i \<in> fst ` set row"
      by blast
    have flt: "filter (\<lambda>w. \<not> ?vis ! w) (map fst row) =
        filter (\<lambda>w. w \<noteq> v) (filter (\<lambda>w. \<not> visited ! w) (map fst row))"
      using v by (auto simp: nth_list_update intro!: filter_cong)
    have "\<forall>i < length visited. visited' ! i \<longleftrightarrow> visited ! i \<or> i \<in> fst ` set (e # row)"
      using m e v by (auto simp: nth_list_update)
    with r l False v e flt show ?thesis
      by (simp add: first_occurrences_Cons)
  qed
qed


definition bfs_inv :: "(nat \<times> int) list list \<Rightarrow> nat \<Rightarrow> bool list \<Rightarrow> nat list \<Rightarrow> nat list
    \<Rightarrow> bool" where
  "bfs_inv adj src visited q out \<longleftrightarrow>
     length visited = length adj \<and>
     (\<forall>row \<in> set adj. \<forall>p \<in> set row. fst p < length adj) \<and>
     distinct (out @ q) \<and>
     (\<forall>v. v \<in> set q \<union> set out \<longleftrightarrow> v < length adj \<and> visited ! v) \<and>
     set q \<union> set out \<subseteq> (edges adj)\<^sup>* `` {src} \<and>
     src \<in> set q \<union> set out \<and>
     (\<forall>u \<in> set out. \<forall>v. (u, v) \<in> edges adj \<longrightarrow> v \<in> set q \<union> set out)"

lemma bfs_invD:
  assumes "bfs_inv adj src visited q out"
  shows "length visited = length adj"
    and "\<forall>row \<in> set adj. \<forall>p \<in> set row. fst p < length adj"
    and "distinct (out @ q)"
    and "\<forall>v. v \<in> set q \<union> set out \<longleftrightarrow> v < length adj \<and> visited ! v"
    and "set q \<union> set out \<subseteq> (edges adj)\<^sup>* `` {src}"
    and "src \<in> set q \<union> set out"
    and "\<forall>u \<in> set out. \<forall>v. (u, v) \<in> edges adj \<longrightarrow> v \<in> set q \<union> set out"
  using assms unfolding bfs_inv_def by - (elim conjE, assumption)+

lemma edges_targets: "u < length adj \<Longrightarrow> edges adj `` {u} = fst ` set (adj ! u)"
  by (auto simp: edges_def intro: rev_image_eqI)

lemma bfs_inv_step:
  assumes inv: "bfs_inv adj src visited (cur # q1) out"
  shows "\<exists>visited'.
      visit_neighbors (adj ! cur) visited q1 =
        Inr (visited', q1 @ first_occurrences (filter (\<lambda>v. \<not> visited ! v) (map fst (adj ! cur)))) \<and>
      cur < length adj \<and>
      bfs_inv adj src visited'
        (q1 @ first_occurrences (filter (\<lambda>v. \<not> visited ! v) (map fst (adj ! cur)))) (out @ [cur])"
proof -
  let ?E = "edges adj"
  let ?news = "first_occurrences (filter (\<lambda>v. \<not> visited ! v) (map fst (adj ! cur)))"
  note len = bfs_invD(1) [OF inv] and tgt = bfs_invD(2) [OF inv]
    and dist = bfs_invD(3) [OF inv] and reach = bfs_invD(5) [OF inv]
    and src = bfs_invD(6) [OF inv] and closed = bfs_invD(7) [OF inv]
  from bfs_invD(4) [OF inv]
  have vis: "v \<in> set (cur # q1) \<union> set out \<longleftrightarrow> v < length adj \<and> visited ! v" for v
    by (rule spec)
  from vis [of cur] have cur: "cur < length adj" by simp
  then have row: "\<forall>p \<in> set (adj ! cur). fst p < length visited"
    using tgt len by (auto dest: nth_mem)
  from visit_neighbors_result [OF row, of q1] obtain visited' where
    r: "visit_neighbors (adj ! cur) visited q1 = Inr (visited', q1 @ ?news)"
    and l: "length visited' = length visited"
    and m: "\<forall>i < length visited. visited' ! i \<longleftrightarrow> visited ! i \<or> i \<in> fst ` set (adj ! cur)"
    by blast
  have news_set: "set ?news = {v \<in> fst ` set (adj ! cur). \<not> visited ! v}"
    by (auto simp: first_occurrences_set)
  have news_lt: "v < length adj" if "v \<in> fst ` set (adj ! cur)" for v
    using that row len by auto
  have vis': "v \<in> set (q1 @ ?news) \<union> set (out @ [cur]) \<longleftrightarrow> v < length adj \<and> visited' ! v" for v
  proof (cases "v < length adj")
    case True
    with m len have "visited' ! v \<longleftrightarrow> visited ! v \<or> v \<in> fst ` set (adj ! cur)" by simp
    with True vis [of v] news_set show ?thesis by auto
  next
    case False
    with vis [of v] news_set news_lt [of v] show ?thesis by auto
  qed
  have disj: "set ?news \<inter> (set (cur # q1) \<union> set out) = {}"
    using news_set vis by auto
  have dist': "distinct ((out @ [cur]) @ q1 @ ?news)"
    using dist disj first_occurrences_distinct [of "filter (\<lambda>v. \<not> visited ! v) (map fst (adj ! cur))"]
    by auto
  have cur_reach: "(src, cur) \<in> ?E\<^sup>*" using reach by auto
  have "(cur, v) \<in> ?E" if "v \<in> set ?news" for v
    using that news_set edges_targets [OF cur] by auto
  with cur_reach have news_reach: "set ?news \<subseteq> ?E\<^sup>* `` {src}"
    by (auto intro: rtrancl_into_rtrancl)
  have reach': "set (q1 @ ?news) \<union> set (out @ [cur]) \<subseteq> ?E\<^sup>* `` {src}"
    using reach news_reach by auto
  have src': "src \<in> set (q1 @ ?news) \<union> set (out @ [cur])"
    using src by auto
  have closed': "\<forall>u \<in> set (out @ [cur]). \<forall>v. (u, v) \<in> ?E \<longrightarrow> v \<in> set (q1 @ ?news) \<union> set (out @ [cur])"
  proof (intro ballI allI impI)
    fix u v
    assume u: "u \<in> set (out @ [cur])" and e: "(u, v) \<in> ?E"
    show "v \<in> set (q1 @ ?news) \<union> set (out @ [cur])"
    proof (cases "u = cur")
      case True
      with e edges_targets [OF cur] have v: "v \<in> fst ` set (adj ! cur)" by auto
      then have "v < length adj" by (rule news_lt)
      with v m len have "visited' ! v" by simp
      with \<open>v < length adj\<close> vis' [of v] show ?thesis by simp
    next
      case False
      with u have "u \<in> set out" by simp
      with closed e have "v \<in> set (cur # q1) \<union> set out" by blast
      then show ?thesis by auto
    qed
  qed
  have "bfs_inv adj src visited' (q1 @ ?news) (out @ [cur])"
    unfolding bfs_inv_def
    using l len tgt dist' vis' reach' src' closed' by (intro conjI allI) simp_all
  with r cur show ?thesis by blast
qed

lemma bfs_inv_final:
  assumes "bfs_inv adj src visited [] out"
  shows "distinct out \<and> set out = (edges adj)\<^sup>* `` {src}"
proof -
  let ?E = "edges adj"
  from bfs_invD(3,5,6,7) [OF assms]
  have dist: "distinct out" and sub: "set out \<subseteq> ?E\<^sup>* `` {src}"
    and src: "src \<in> set out"
    and closed: "\<forall>u \<in> set out. \<forall>v. (u, v) \<in> ?E \<longrightarrow> v \<in> set out"
    by simp_all
  have "v \<in> set out" if "(src, v) \<in> ?E\<^sup>*" for v
    using that
  proof (induction rule: rtrancl_induct)
    case base
    then show ?case by (rule src)
  next
    case (step y z)
    with closed show ?case by blast
  qed
  with sub dist show ?thesis by auto
qed

lemma bfs_loop_correct:
  assumes "bfs_inv adj src visited q out" and "length adj \<le> nlen"
  shows "\<exists>res. bfs_loop nlen adj visited q out = Inr res \<and> distinct res \<and>
           set res = (edges adj)\<^sup>* `` {src}"
  using assms
proof (induction nlen adj visited q out rule: bfs_loop.induct)
  case (1 nlen adj visited q out)
  show ?case
  proof (cases q)
    case Nil
    with bfs_inv_final [of adj src visited out] "1.prems" show ?thesis
      by (simp add: bfs_loop.simps [of nlen adj visited "[]" out])
  next
    case (Cons cur q1)
    let ?news = "first_occurrences (filter (\<lambda>v. \<not> visited ! v) (map fst (adj ! cur)))"
    from bfs_inv_step [of adj src visited cur q1 out] "1.prems" Cons
    obtain visited' where
      r: "visit_neighbors (adj ! cur) visited q1 = Inr (visited', q1 @ ?news)"
      and cur: "cur < length adj"
      and inv': "bfs_inv adj src visited' (q1 @ ?news) (out @ [cur])"
      by blast
    from cur "1.prems"(2) have ok: "\<not> \<not> (cur < nlen \<and> cur < length adj)" by simp
    from "1.IH" [OF Cons ok r refl inv' "1.prems"(2)]
    show ?thesis using Cons ok r
      by (simp add: bfs_loop.simps [of nlen adj visited "cur # q1" out])
  qed
qed


lemma bfs_inv_start:
  assumes "src < length adj" and "\<forall>row \<in> set adj. \<forall>p \<in> set row. fst p < length adj"
  shows "bfs_inv adj src ((replicate (length adj) False)[src := True]) [src] []"
  unfolding bfs_inv_def using assms by (auto simp: nth_list_update)

lemma edges_sym:
  assumes "wf s"
  shows "sym (edges (adjList s))"
proof (rule symI)
  fix u v
  assume "(u, v) \<in> edges (adjList s)"
  then obtain c where u: "u < length (adjList s)" and e: "(v, c) \<in> set (adjList s ! u)"
    by (auto simp: edges_def)
  from assms have ao: "adj_ok s" and sy: "symmetric s" by (simp_all add: wf_def)
  from ao have len: "length (adjList s) = locationCount s" by (simp add: adj_ok_def)
  from ao u e have v: "v < locationCount s" by (fastforce simp: adj_ok_def dest: nth_mem)
  from sy u v len have "count_list (adjList s ! u) (v, c) = count_list (adjList s ! v) (u, c)"
    by (simp add: symmetric_def)
  with e have "(u, c) \<in> set (adjList s ! v)"
    by (metis count_list_0_iff)
  with v len show "(v, u) \<in> edges (adjList s)" by (auto simp: edges_def)
qed

text \<open>
  The order of a whole traversal, written out: \<open>batches ! i\<close> is what the \<open>i\<close>-th
  location delivered to puts on the queue, namely the targets of its row that are not
  the source and not in an earlier batch, in the order of the row, each at its first
  occurrence; the delivery order is the source followed by the batches, one after the
  other.
\<close>

definition enqueue_trace :: "(nat \<times> int) list list \<Rightarrow> nat \<Rightarrow> nat list \<Rightarrow> nat list list \<Rightarrow> bool"
  where
  "enqueue_trace adj src order batches \<longleftrightarrow>
     length batches = length order \<and>
     order = src # concat batches \<and>
     (\<forall>i < length order.
        batches ! i =
          first_occurrences
            (filter (\<lambda>v. v \<notin> set (src # concat (take i batches)))
               (map fst (adj ! (order ! i)))))"

text \<open>The same for a traversal under way: \<open>out\<close> has been delivered to, \<open>q\<close> is waiting.\<close>

definition trace_inv :: "(nat \<times> int) list list \<Rightarrow> nat \<Rightarrow> nat list \<Rightarrow> nat list \<Rightarrow> nat list list
    \<Rightarrow> bool" where
  "trace_inv adj src out q bs \<longleftrightarrow>
     length bs = length out \<and>
     out @ q = src # concat bs \<and>
     (\<forall>i < length out.
        bs ! i =
          first_occurrences
            (filter (\<lambda>v. v \<notin> set (src # concat (take i bs))) (map fst (adj ! (out ! i)))))"

lemma trace_inv_step:
  assumes inv: "bfs_inv adj src visited (cur # q1) out"
    and tr: "trace_inv adj src out (cur # q1) bs"
  shows "trace_inv adj src (out @ [cur])
           (q1 @ first_occurrences (filter (\<lambda>v. \<not> visited ! v) (map fst (adj ! cur))))
           (bs @ [first_occurrences (filter (\<lambda>v. \<not> visited ! v) (map fst (adj ! cur)))])"
proof -
  let ?news = "first_occurrences (filter (\<lambda>v. \<not> visited ! v) (map fst (adj ! cur)))"
  from tr have A: "length bs = length out" and B: "out @ cur # q1 = src # concat bs"
    and C: "\<forall>i < length out. bs ! i =
          first_occurrences
            (filter (\<lambda>v. v \<notin> set (src # concat (take i bs))) (map fst (adj ! (out ! i))))"
    unfolding trace_inv_def by - (elim conjE, assumption)+
  note tgt = bfs_invD(2) [OF inv]
  from bfs_invD(4) [OF inv]
  have vis: "v \<in> set (cur # q1) \<union> set out \<longleftrightarrow> v < length adj \<and> visited ! v" for v
    by (rule spec)
  from vis [of cur] have cur: "cur < length adj" by simp
  have seen: "set (src # concat bs) = set (cur # q1) \<union> set out"
    unfolding B [symmetric] by auto
  have flt: "filter (\<lambda>v. \<not> visited ! v) (map fst (adj ! cur)) =
      filter (\<lambda>v. v \<notin> set (src # concat bs)) (map fst (adj ! cur))"
  proof (rule filter_cong [OF refl])
    fix v assume "v \<in> set (map fst (adj ! cur))"
    with tgt cur have "v < length adj" by (auto dest: nth_mem)
    with vis [of v] show "(\<not> visited ! v) = (v \<notin> set (src # concat bs))"
      unfolding seen by simp
  qed
  have A': "length (bs @ [?news]) = length (out @ [cur])" using A by simp
  have "(out @ [cur]) @ q1 @ ?news = (out @ cur # q1) @ ?news" by simp
  also have "\<dots> = src # concat (bs @ [?news])" unfolding B by simp
  finally have B': "(out @ [cur]) @ q1 @ ?news = src # concat (bs @ [?news])" .
  have C': "\<forall>i < length (out @ [cur]). (bs @ [?news]) ! i =
      first_occurrences
        (filter (\<lambda>v. v \<notin> set (src # concat (take i (bs @ [?news]))))
           (map fst (adj ! ((out @ [cur]) ! i))))"
  proof (intro allI impI)
    fix i assume i: "i < length (out @ [cur])"
    show "(bs @ [?news]) ! i =
      first_occurrences
        (filter (\<lambda>v. v \<notin> set (src # concat (take i (bs @ [?news]))))
           (map fst (adj ! ((out @ [cur]) ! i))))"
    proof (cases "i < length out")
      case True
      with A C show ?thesis by (simp add: nth_append)
    next
      case False
      with i have "i = length out" by simp
      with A flt show ?thesis by (simp add: nth_append)
    qed
  qed
  from A' B' C' show ?thesis unfolding trace_inv_def by (intro conjI)
qed

lemma bfs_loop_trace:
  assumes "bfs_inv adj src visited q out" and "length adj \<le> nlen"
    and "trace_inv adj src out q bs"
  shows "\<exists>res batches. bfs_loop nlen adj visited q out = Inr res \<and>
           enqueue_trace adj src res batches"
  using assms
proof (induction nlen adj visited q out arbitrary: bs rule: bfs_loop.induct)
  case (1 nlen adj visited q out)
  show ?case
  proof (cases q)
    case Nil
    with "1.prems"(3) have "enqueue_trace adj src out bs"
      by (simp add: trace_inv_def enqueue_trace_def)
    with Nil show ?thesis
      by (auto simp: bfs_loop.simps [of nlen adj visited "[]" out])
  next
    case (Cons cur q1)
    let ?news = "first_occurrences (filter (\<lambda>v. \<not> visited ! v) (map fst (adj ! cur)))"
    from bfs_inv_step [of adj src visited cur q1 out] "1.prems" Cons
    obtain visited' where
      r: "visit_neighbors (adj ! cur) visited q1 = Inr (visited', q1 @ ?news)"
      and cur: "cur < length adj"
      and inv': "bfs_inv adj src visited' (q1 @ ?news) (out @ [cur])"
      by blast
    have tr': "trace_inv adj src (out @ [cur]) (q1 @ ?news) (bs @ [?news])"
      using "1.prems"(1,3) unfolding Cons by (rule trace_inv_step)
    from cur "1.prems"(2) have ok: "\<not> \<not> (cur < nlen \<and> cur < length adj)" by simp
    from "1.IH" [OF Cons ok r refl inv' "1.prems"(2) tr']
    show ?thesis using Cons ok r
      by (simp add: bfs_loop.simps [of nlen adj visited "cur # q1" out])
  qed
qed

lemma trace_inv_start: "trace_inv adj src [] [src] []"
  by (simp add: trace_inv_def)

text \<open>
  Claim C7. In any reachable state, the traversal from an existing location ends
  without error; the handles it delivers to are pairwise different and are exactly
  the handles reachable from the source along routes, which is the connected component
  of the source since routes are stored in both directions; the same holds for the
  names printed. The delivery order is the source followed, for each location in the
  order delivered to, by the targets of its row that were not discovered before, in
  the order of the row (\<open>enqueue_trace\<close>). The inner loop appends to the queue the not
  yet visited targets of the row, each once, in the order of their first occurrence.
\<close>

theorem bfs_visits_component:
  assumes "locationToIndex (run init cs) start = Some src"
  shows "\<exists>order batches.
           bfs_loop (length (indexToLocation (run init cs))) (adjList (run init cs))
             ((replicate (locationCount (run init cs)) False)[src := True]) [src] [] = Inr order \<and>
           enqueue_trace (adjList (run init cs)) src order batches \<and>
           simulateDelivery (run init cs) start =
             Inr (map (\<lambda>v. indexToLocation (run init cs) ! v) order) \<and>
           distinct order \<and>
           set order = (edges (adjList (run init cs)))\<^sup>* `` {src} \<and>
           sym (edges (adjList (run init cs))) \<and>
           distinct (map (\<lambda>v. indexToLocation (run init cs) ! v) order) \<and>
           set (map (\<lambda>v. indexToLocation (run init cs) ! v) order) =
             {name. \<exists>v. locationToIndex (run init cs) name = Some v \<and>
                (src, v) \<in> (edges (adjList (run init cs)))\<^sup>*} \<and>
           (\<forall>row visited q. (\<forall>p \<in> set row. fst p < length visited) \<longrightarrow>
              (\<exists>visited'. visit_neighbors row visited q =
                 Inr (visited',
                      q @ first_occurrences (filter (\<lambda>v. \<not> visited ! v) (map fst row)))))"
proof -
  let ?s = "run init cs"
  let ?adj = "adjList ?s"
  let ?names = "indexToLocation ?s"
  let ?n = "locationCount ?s"
  have w: "wf ?s" by (rule wf_run)
  then have nm: "names_ok ?s" and ao: "adj_ok ?s" by (simp_all add: wf_def)
  from ao have len: "length ?adj = ?n"
    and tgt: "\<forall>row \<in> set ?adj. \<forall>p \<in> set row. fst p < length ?adj"
    by (simp_all add: adj_ok_def)
  from nm have nlen: "length ?names = ?n" and dist: "distinct ?names"
    and m: "\<And>name h. locationToIndex ?s name = Some h \<longleftrightarrow> h < ?n \<and> ?names ! h = name"
    by (simp_all add: names_ok_def)
  from names_ok_lookup [OF nm assms] have src: "src < ?n" by simp
  have start: "bfs_inv ?adj src ((replicate (length ?adj) False)[src := True]) [src] []"
    using src len tgt by (intro bfs_inv_start) simp_all
  from bfs_loop_correct [OF start, of "length ?names"] len nlen
  obtain order where
    r: "bfs_loop (length ?names) ?adj ((replicate ?n False)[src := True]) [src] [] = Inr order"
    and d: "distinct order" and st: "set order = (edges ?adj)\<^sup>* `` {src}"
    by auto
  from bfs_loop_trace [OF start _ trace_inv_start, of "length ?names"] len nlen r
  obtain batches where tr: "enqueue_trace ?adj src order batches"
    by auto
  have sim: "simulateDelivery ?s start = Inr (map (\<lambda>v. ?names ! v) order)"
    using assms src r by (simp add: simulateDelivery_def)
  have lt: "v < ?n" if "(src, v) \<in> (edges ?adj)\<^sup>*" for v
    using that
  proof (induction rule: rtrancl_induct)
    case base
    then show ?case by (rule src)
  next
    case (step y z)
    then obtain c where "y < length ?adj" and "(z, c) \<in> set (?adj ! y)"
      by (auto simp: edges_def)
    with tgt len show ?case by (fastforce dest: nth_mem)
  qed
  have olt: "\<forall>v \<in> set order. v < length ?names" using st lt nlen by auto
  have dn: "distinct (map (\<lambda>v. ?names ! v) order)"
    using d olt dist by (auto simp: distinct_map inj_on_def nth_eq_iff_index_eq)
  have sn: "set (map (\<lambda>v. ?names ! v) order) =
      {name. \<exists>v. locationToIndex ?s name = Some v \<and> (src, v) \<in> (edges ?adj)\<^sup>*}"
    using st lt m by auto
  have ord: "\<exists>visited'. visit_neighbors row visited q =
      Inr (visited', q @ first_occurrences (filter (\<lambda>v. \<not> visited ! v) (map fst row)))"
    if "\<forall>p \<in> set row. fst p < length visited" for row visited q
    using visit_neighbors_result [OF that, of q] by blast
  from r tr sim d st edges_sym [OF w] dn sn ord show ?thesis by blast
qed

text \<open>
  A with routes to C and then to B, and an isolated D: the delivery order is A, C, B,
  the batch of A is C, B as in its row, and D is left out.
\<close>

theorem bfs_visits_component_witness:
  "simulateDelivery (run init [AddLocation ''A'', AddLocation ''B'', AddLocation ''C'',
      AddRoute ''A'' ''C'' 5, AddRoute ''A'' ''B'' 1, AddLocation ''D'']) ''A'' =
     Inr [''A'', ''C'', ''B''] \<and>
   (edges (adjList (run init [AddLocation ''A'', AddLocation ''B'', AddLocation ''C'',
      AddRoute ''A'' ''C'' 5, AddRoute ''A'' ''B'' 1, AddLocation ''D''])))\<^sup>* `` {0} = {0, 1, 2} \<and>
   (\<exists>batches. enqueue_trace (adjList (run init [AddLocation ''A'', AddLocation ''B'',
      AddLocation ''C'', AddRoute ''A'' ''C'' 5, AddRoute ''A'' ''B'' 1, AddLocation ''D'']))
      0 [0, 2, 1] batches \<and> batches ! 0 = [2, 1])"
proof -
  let ?cs = "[AddLocation ''A'', AddLocation ''B'', AddLocation ''C'',
      AddRoute ''A'' ''C'' 5, AddRoute ''A'' ''B'' 1, AddLocation ''D'']"
  have a: "locationToIndex (run init ?cs) ''A'' = Some 0" by code_simp
  have b: "bfs_loop (length (indexToLocation (run init ?cs))) (adjList (run init ?cs))
             ((replicate (locationCount (run init ?cs)) False)[0 := True]) [0] [] = Inr [0, 2, 1]"
    by code_simp
  have c: "simulateDelivery (run init ?cs) ''A'' = Inr [''A'', ''C'', ''B'']" by code_simp
  have adj: "adjList (run init ?cs) = [[(2, 5), (1, 1)], [(0, 1)], [(0, 5)], []]" by code_simp
  from bfs_visits_component [OF a] obtain order batches where
    r: "bfs_loop (length (indexToLocation (run init ?cs))) (adjList (run init ?cs))
             ((replicate (locationCount (run init ?cs)) False)[0 := True]) [0] [] = Inr order"
    and tr: "enqueue_trace (adjList (run init ?cs)) 0 order batches"
    and st: "set order = (edges (adjList (run init ?cs)))\<^sup>* `` {0}"
    by blast
  from r b have o: "order = [0, 2, 1]" by (metis Inr_inject)
  have e: "(edges (adjList (run init ?cs)))\<^sup>* `` {0} = {0, 1, 2}"
    unfolding st [symmetric] o by auto
  from tr have "batches ! 0 =
      first_occurrences (filter (\<lambda>v. v \<notin> set (0 # concat (take 0 batches)))
         (map fst (adjList (run init ?cs) ! (order ! 0))))"
    unfolding enqueue_trace_def o by simp
  then have "batches ! 0 = [2, 1]"
    unfolding o adj by (simp add: first_occurrences_def)
  with tr have "\<exists>batches. enqueue_trace (adjList (run init ?cs)) 0 [0, 2, 1] batches \<and>
      batches ! 0 = [2, 1]"
    unfolding o by blast
  with c e show ?thesis by (intro conjI)
qed

section \<open>Properties of the shortest-path query\<close>

subsection \<open>The result depends on the frontier's contents only\<close>

lemma relax_frontier:
  "relax es u dist pq =
     (case relax es u dist [] of Inl e \<Rightarrow> Inl e | Inr (d, p) \<Rightarrow> Inr (d, pq @ p))"
proof (induction es arbitrary: dist pq)
  case Nil
  then show ?case by simp
next
  case (Cons e es)
  obtain v cost where e: "e = (v, cost)" by (cases e)
  let ?d = "dist[v := wrap32 (dist ! u + cost)]"
  have a: "relax es u ?d (pq @ [(?d ! v, v)]) =
      (case relax es u ?d [] of Inl e \<Rightarrow> Inl e | Inr (d, p) \<Rightarrow> Inr (d, (pq @ [(?d ! v, v)]) @ p))"
    by (rule Cons.IH)
  have b: "relax es u ?d [(?d ! v, v)] =
      (case relax es u ?d [] of Inl e \<Rightarrow> Inl e | Inr (d, p) \<Rightarrow> Inr (d, [(?d ! v, v)] @ p))"
    by (rule Cons.IH)
  have c: "relax es u dist pq =
      (case relax es u dist [] of Inl e \<Rightarrow> Inl e | Inr (d, p) \<Rightarrow> Inr (d, pq @ p))"
    by (rule Cons.IH)
  show ?case
  proof (cases "v < length dist \<and> u < length dist")
    case False
    then show ?thesis unfolding e by simp
  next
    case inr: True
    show ?thesis
    proof (cases "dist ! v > wrap32 (dist ! u + cost)")
      case True
      have l: "relax (e # es) u dist pq = relax es u ?d (pq @ [(?d ! v, v)])"
        unfolding e using inr True by (simp add: Let_def)
      have r: "relax (e # es) u dist [] = relax es u ?d [(?d ! v, v)]"
        unfolding e using inr True by (simp add: Let_def)
      show ?thesis
        unfolding l r a b by (cases "relax es u ?d []") auto
    next
      case False
      have l: "relax (e # es) u dist pq = relax es u dist pq"
        unfolding e using inr False by simp
      have r: "relax (e # es) u dist [] = relax es u dist []"
        unfolding e using inr False by simp
      show ?thesis unfolding l r by (rule c)
    qed
  qed
qed

lemma relax_mset:
  assumes "mset pq1 = mset pq2"
  shows "(case relax es u dist pq1 of Inl e \<Rightarrow> relax es u dist pq2 = Inl e
          | Inr (d, p1) \<Rightarrow> (\<exists>p2. relax es u dist pq2 = Inr (d, p2) \<and> mset p1 = mset p2))"
proof -
  note f1 = relax_frontier [of es u dist pq1] and f2 = relax_frontier [of es u dist pq2]
  show ?thesis
  proof (cases "relax es u dist []")
    case (Inl e)
    with f1 f2 show ?thesis by simp
  next
    case (Inr r)
    obtain d p where "r = (d, p)" by (cases r)
    with Inr f1 f2 assms show ?thesis by simp
  qed
qed

lemma pq_top_mset: "mset pq1 = mset pq2 \<Longrightarrow> pq_top pq1 = pq_top pq2"
proof (cases "pq1 = []")
  case True
  assume "mset pq1 = mset pq2"
  with True show ?thesis by simp
next
  case False
  assume eq: "mset pq1 = mset pq2"
  with False have "pq2 \<noteq> []" by auto
  with False show ?thesis
    using mset_eq_setD [OF eq] by (simp add: pq_top_Min)
qed

lemma pq_pop_mset: "mset pq1 = mset pq2 \<Longrightarrow> mset (pq_pop pq1) = mset (pq_pop pq2)"
  by (simp add: pq_pop_def pq_top_mset [of pq1 pq2])

lemma dijkstra_loop_empty: "dijkstra_loop adj dist [] = Inr dist"
  by (subst dijkstra_loop.simps) simp

lemma dijkstra_loop_bad_top:
  "pq \<noteq> [] \<Longrightarrow> \<not> snd (pq_top pq) < length dist \<Longrightarrow> dijkstra_loop adj dist pq = Inl OutOfBounds"
  by (subst dijkstra_loop.simps) (simp add: Let_def)

lemma dijkstra_loop_stale:
  "pq \<noteq> [] \<Longrightarrow> snd (pq_top pq) < length dist \<Longrightarrow> dist ! snd (pq_top pq) < fst (pq_top pq) \<Longrightarrow>
     dijkstra_loop adj dist pq = dijkstra_loop adj dist (pq_pop pq)"
  by (subst dijkstra_loop.simps) (simp add: Let_def)

lemma dijkstra_loop_bad_row:
  "pq \<noteq> [] \<Longrightarrow> snd (pq_top pq) < length dist \<Longrightarrow> \<not> dist ! snd (pq_top pq) < fst (pq_top pq) \<Longrightarrow>
     \<not> snd (pq_top pq) < length adj \<Longrightarrow> dijkstra_loop adj dist pq = Inl OutOfBounds"
  by (subst dijkstra_loop.simps) (simp add: Let_def)

lemma dijkstra_loop_fresh:
  "pq \<noteq> [] \<Longrightarrow> snd (pq_top pq) < length dist \<Longrightarrow> \<not> dist ! snd (pq_top pq) < fst (pq_top pq) \<Longrightarrow>
     snd (pq_top pq) < length adj \<Longrightarrow>
     dijkstra_loop adj dist pq =
       (case relax (adj ! snd (pq_top pq)) (snd (pq_top pq)) dist (pq_pop pq) of
          Inl e \<Rightarrow> Inl e
        | Inr (dist', pq2) \<Rightarrow> dijkstra_loop adj dist' pq2)"
  by (subst dijkstra_loop.simps) (simp add: Let_def)

lemma dijkstra_loop_mset:
  "mset pq1 = mset pq2 \<Longrightarrow> dijkstra_loop adj dist pq1 = dijkstra_loop adj dist pq2"
proof (induction adj dist pq1 arbitrary: pq2 rule: dijkstra_loop.induct)
  case (1 adj dist pq)
  show ?case
  proof (cases "pq = []")
    case True
    with "1.prems" have "pq2 = []" by simp
    with True show ?thesis by simp
  next
    case ne: False
    with "1.prems" have ne2: "pq2 \<noteq> []" by auto
    define top where "top = pq_top pq"
    define u where "u = snd top"
    define d where "d = fst top"
    define rest where "rest = pq_pop pq"
    have top2: "pq_top pq2 = top" using pq_top_mset [OF "1.prems"] by (simp add: top_def)
    have pop: "mset rest = mset (pq_pop pq2)"
      unfolding rest_def using "1.prems" by (rule pq_pop_mset)
    note IH1 = "1.IH"(1) [OF ne top_def rest_def d_def u_def]
    note IH2 = "1.IH"(2) [OF ne top_def rest_def d_def u_def]
    show ?thesis
    proof (cases "u < length dist")
      case False
      have "dijkstra_loop adj dist pq = Inl OutOfBounds"
        using ne False unfolding u_def top_def by (rule dijkstra_loop_bad_top)
      moreover have "dijkstra_loop adj dist pq2 = Inl OutOfBounds"
        using ne2 False unfolding u_def top2 [symmetric] by (rule dijkstra_loop_bad_top)
      ultimately show ?thesis by simp
    next
      case inr: True
      then have inr': "\<not> \<not> u < length dist" by simp
      show ?thesis
      proof (cases "dist ! u < d")
        case True
        have "dijkstra_loop adj dist pq = dijkstra_loop adj dist rest"
          using ne inr True unfolding u_def d_def top_def rest_def by (rule dijkstra_loop_stale)
        also have "\<dots> = dijkstra_loop adj dist (pq_pop pq2)"
          using inr' True pop by (rule IH1)
        also have "\<dots> = dijkstra_loop adj dist pq2"
          using ne2 inr True unfolding u_def d_def top2 [symmetric]
          by (rule dijkstra_loop_stale [symmetric])
        finally show ?thesis .
      next
        case fresh: False
        show ?thesis
        proof (cases "u < length adj")
          case False
          have "dijkstra_loop adj dist pq = Inl OutOfBounds"
            using ne inr fresh False unfolding u_def d_def top_def by (rule dijkstra_loop_bad_row)
          moreover have "dijkstra_loop adj dist pq2 = Inl OutOfBounds"
            using ne2 inr fresh False unfolding u_def d_def top2 [symmetric]
            by (rule dijkstra_loop_bad_row)
          ultimately show ?thesis by simp
        next
          case True
          then have row': "\<not> \<not> u < length adj" by simp
          note rm = relax_mset [OF pop, of "adj ! u" u dist]
          have l1: "dijkstra_loop adj dist pq =
             (case relax (adj ! u) u dist rest of
                Inl e \<Rightarrow> Inl e
              | Inr (dist', pq2) \<Rightarrow> dijkstra_loop adj dist' pq2)"
            using ne inr fresh True unfolding u_def d_def top_def rest_def
            by (rule dijkstra_loop_fresh)
          have l2: "dijkstra_loop adj dist pq2 =
             (case relax (adj ! u) u dist (pq_pop pq2) of
                Inl e \<Rightarrow> Inl e
              | Inr (dist', pq2) \<Rightarrow> dijkstra_loop adj dist' pq2)"
            using ne2 inr fresh True unfolding u_def d_def top2 [symmetric]
            by (rule dijkstra_loop_fresh)
          show ?thesis
          proof (cases "relax (adj ! u) u dist rest")
            case (Inl e)
            with rm have "relax (adj ! u) u dist (pq_pop pq2) = Inl e" by simp
            with Inl show ?thesis unfolding l1 l2 by simp
          next
            case (Inr r)
            obtain d' p1 where r: "(d', p1) = r" by (cases r) auto
            with rm Inr obtain p2 where
              r2: "relax (adj ! u) u dist (pq_pop pq2) = Inr (d', p2)" and m: "mset p1 = mset p2"
              by auto
            have "dijkstra_loop adj d' p1 = dijkstra_loop adj d' p2"
              using inr' fresh row' Inr r m by (rule IH2)
            with Inr r r2 show ?thesis unfolding l1 l2 by auto
          qed
        qed
      qed
    qed
  qed
qed


text \<open>
  Claim C10. The entry taken from a non-empty frontier is its least pair in the order
  (distance, handle): among entries of equal distance the one with the least handle.
  \<open>pop\<close> removes one copy of it. So the entry taken, the entries left, and the
  distances the main loop returns depend on which entries the frontier holds and not
  on the order it holds them in: two runs on the same graph and source agree.
\<close>

theorem frontier_order_deterministic:
  "(pq \<noteq> [] \<longrightarrow>
      pq_top pq \<in> set pq \<and>
      (\<forall>e \<in> set pq. fst (pq_top pq) < fst e \<or>
         (fst (pq_top pq) = fst e \<and> snd (pq_top pq) \<le> snd e)) \<and>
      mset (pq_pop pq) = mset pq - {#pq_top pq#}) \<and>
   (mset pq1 = mset pq2 \<longrightarrow>
      pq_top pq1 = pq_top pq2 \<and>
      mset (pq_pop pq1) = mset (pq_pop pq2) \<and>
      dijkstra_loop adj dist pq1 = dijkstra_loop adj dist pq2)"
proof (intro conjI impI ballI)
  assume "pq \<noteq> []"
  then show "pq_top pq \<in> set pq" by (rule pq_top_in)
next
  fix e
  assume ne: "pq \<noteq> []" and e: "e \<in> set pq"
  then have "pq_top pq \<le> e" by (simp add: pq_top_Min)
  then show "fst (pq_top pq) < fst e \<or> (fst (pq_top pq) = fst e \<and> snd (pq_top pq) \<le> snd e)"
    by (auto simp: less_eq_prod_def)
next
  assume "pq \<noteq> []"
  show "mset (pq_pop pq) = mset pq - {#pq_top pq#}" by (simp add: pq_pop_def)
next
  assume "mset pq1 = mset pq2"
  then show "pq_top pq1 = pq_top pq2" by (rule pq_top_mset)
next
  assume "mset pq1 = mset pq2"
  then show "mset (pq_pop pq1) = mset (pq_pop pq2)" by (rule pq_pop_mset)
next
  assume "mset pq1 = mset pq2"
  then show "dijkstra_loop adj dist pq1 = dijkstra_loop adj dist pq2" by (rule dijkstra_loop_mset)
qed

text \<open>
  Two entries at distance 1: the one for handle 1 comes before the one for handle 2, in either layout.
\<close>

theorem frontier_order_deterministic_witness:
  "pq_top [(1, 2), (1, 1), (3, 0)] = (1, 1) \<and>
   mset (pq_pop [(1, 2), (1, 1), (3, 0)]) = {#(1, 2), (3, 0)#} \<and>
   dijkstra_loop [[(1, 1), (2, 1)], [(0, 1)], [(0, 1)]] [0, 1, 1] [(1, 2), (1, 1)] =
   dijkstra_loop [[(1, 1), (2, 1)], [(0, 1)], [(0, 1)]] [0, 1, 1] [(1, 1), (1, 2)]"
proof -
  have a: "pq_top [(1, 2), (1, 1), (3, 0)] = (1, 1)" by code_simp
  have b: "[(1, 2), (1, 1), (3 :: int, 0 :: nat)] \<noteq> []" by simp
  have c: "mset [(1 :: int, 2 :: nat), (1, 1)] = mset [(1, 1), (1, 2)]" by simp
  from frontier_order_deterministic [of "[(1, 2), (1, 1), (3, 0)]" "[(1, 2), (1, 1)]"
      "[(1, 1), (1, 2)]" "[[(1, 1), (2, 1)], [(0, 1)], [(0, 1)]]" "[0, 1, 1]"] a b c
  show ?thesis by simp
qed

subsection \<open>What the query can reach\<close>

lemma relax_safe:
  assumes "u < length dist" and "\<forall>p \<in> set es. fst p < length dist"
  shows "\<exists>dist' pq'. relax es u dist pq = Inr (dist', pq') \<and> length dist' = length dist \<and>
           (\<forall>v. dist' ! v \<noteq> dist ! v \<longrightarrow> v \<in> fst ` set es) \<and>
           (\<forall>e \<in> set pq'. e \<in> set pq \<or> snd e \<in> fst ` set es)"
  using assms
proof (induction es arbitrary: dist pq)
  case Nil
  then show ?case by simp
next
  case (Cons e es)
  obtain v cost where e: "e = (v, cost)" by (cases e)
  from Cons.prems e have v: "v < length dist" and u: "u < length dist"
    and rest: "\<forall>p \<in> set es. fst p < length dist" by simp_all
  show ?case
  proof (cases "dist ! v > wrap32 (dist ! u + cost)")
    case True
    let ?d = "dist[v := wrap32 (dist ! u + cost)]"
    have u': "u < length ?d" and rest': "\<forall>p \<in> set es. fst p < length ?d"
      using u rest by simp_all
    from Cons.IH [OF u' rest', of "pq @ [(?d ! v, v)]"] obtain dist' pq' where
      r: "relax es u ?d (pq @ [(?d ! v, v)]) = Inr (dist', pq')"
      and l: "length dist' = length ?d"
      and ch: "\<forall>w. dist' ! w \<noteq> ?d ! w \<longrightarrow> w \<in> fst ` set es"
      and fr: "\<forall>x \<in> set pq'. x \<in> set (pq @ [(?d ! v, v)]) \<or> snd x \<in> fst ` set es"
      by blast
    have "relax (e # es) u dist pq = Inr (dist', pq')"
      using r v u True by (simp add: e Let_def)
    moreover have "\<forall>w. dist' ! w \<noteq> dist ! w \<longrightarrow> w \<in> fst ` set (e # es)"
    proof (intro allI impI)
      fix w
      assume neq: "dist' ! w \<noteq> dist ! w"
      show "w \<in> fst ` set (e # es)"
      proof (cases "w = v")
        case True
        then show ?thesis using e by simp
      next
        case False
        then have "?d ! w = dist ! w" by simp
        with neq ch show ?thesis by auto
      qed
    qed
    moreover have "\<forall>x \<in> set pq'. x \<in> set pq \<or> snd x \<in> fst ` set (e # es)"
      using fr e by auto
    ultimately show ?thesis using l by auto
  next
    case False
    from Cons.IH [OF u rest, of pq] obtain dist' pq' where
      r: "relax es u dist pq = Inr (dist', pq')"
      and l: "length dist' = length dist"
      and ch: "\<forall>w. dist' ! w \<noteq> dist ! w \<longrightarrow> w \<in> fst ` set es"
      and fr: "\<forall>x \<in> set pq'. x \<in> set pq \<or> snd x \<in> fst ` set es"
      by blast
    have "relax (e # es) u dist pq = Inr (dist', pq')"
      using r v u False by (simp add: e)
    with l ch fr show ?thesis by auto
  qed
qed

definition dj_safe :: "(nat \<times> int) list list \<Rightarrow> nat \<Rightarrow> int list \<Rightarrow> (int \<times> nat) list \<Rightarrow> bool"
  where
  "dj_safe adj src dist pq \<longleftrightarrow>
     length dist = length adj \<and>
     (\<forall>row \<in> set adj. \<forall>p \<in> set row. fst p < length adj) \<and>
     src < length adj \<and>
     (\<forall>e \<in> set pq. (src, snd e) \<in> (edges adj)\<^sup>*) \<and>
     (\<forall>v < length adj. dist ! v \<noteq> INT_MAX \<longrightarrow> (src, v) \<in> (edges adj)\<^sup>*)"

lemma reach_lt:
  assumes "(src, v) \<in> (edges adj)\<^sup>*" and "src < length adj"
    and "\<forall>row \<in> set adj. \<forall>p \<in> set row. fst p < length adj"
  shows "v < length adj"
  using assms(1)
proof (induction rule: rtrancl_induct)
  case base
  then show ?case by (rule assms(2))
next
  case (step y z)
  then obtain c where "y < length adj" and "(z, c) \<in> set (adj ! y)"
    by (auto simp: edges_def)
  with assms(3) show ?case by (fastforce dest: nth_mem)
qed

lemma set_pq_pop: "set (pq_pop pq) \<subseteq> set pq"
  unfolding pq_pop_def by (rule set_remove1_subset)

lemma dijkstra_loop_safe:
  "dj_safe adj src dist pq \<Longrightarrow>
     \<exists>dist'. dijkstra_loop adj dist pq = Inr dist' \<and> length dist' = length adj \<and>
       (\<forall>v < length adj. dist' ! v \<noteq> INT_MAX \<longrightarrow> (src, v) \<in> (edges adj)\<^sup>*)"
proof (induction adj dist pq rule: dijkstra_loop.induct)
  case (1 adj dist pq)
  from "1.prems" have len: "length dist = length adj"
    and tgt: "\<forall>row \<in> set adj. \<forall>p \<in> set row. fst p < length adj"
    and src: "src < length adj"
    and fr: "\<forall>e \<in> set pq. (src, snd e) \<in> (edges adj)\<^sup>*"
    and dr: "\<forall>v < length adj. dist ! v \<noteq> INT_MAX \<longrightarrow> (src, v) \<in> (edges adj)\<^sup>*"
    unfolding dj_safe_def by - (elim conjE, assumption)+
  show ?case
  proof (cases "pq = []")
    case True
    with len dr show ?thesis by (simp add: dijkstra_loop_empty)
  next
    case ne: False
    define top where "top = pq_top pq"
    define u where "u = snd top"
    define d where "d = fst top"
    define rest where "rest = pq_pop pq"
    note IH1 = "1.IH"(1) [OF ne top_def rest_def d_def u_def]
    note IH2 = "1.IH"(2) [OF ne top_def rest_def d_def u_def]
    have "top \<in> set pq" unfolding top_def using ne by (rule pq_top_in)
    with fr have ur: "(src, u) \<in> (edges adj)\<^sup>*" by (simp add: u_def)
    from reach_lt [OF ur src tgt] have u: "u < length adj" .
    with len have ud: "u < length dist" by simp
    have fr': "\<forall>e \<in> set rest. (src, snd e) \<in> (edges adj)\<^sup>*"
      using fr set_pq_pop [of pq] by (auto simp: rest_def)
    show ?thesis
    proof (cases "dist ! u < d")
      case True
      have "dj_safe adj src dist rest"
        unfolding dj_safe_def using len tgt src fr' dr by simp
      from IH1 [OF _ True this] ud
      have "\<exists>dist'. dijkstra_loop adj dist rest = Inr dist' \<and> length dist' = length adj \<and>
         (\<forall>v < length adj. dist' ! v \<noteq> INT_MAX \<longrightarrow> (src, v) \<in> (edges adj)\<^sup>*)"
        by simp
      moreover have "dijkstra_loop adj dist pq = dijkstra_loop adj dist rest"
        using ne ud True unfolding u_def d_def top_def rest_def by (rule dijkstra_loop_stale)
      ultimately show ?thesis by simp
    next
      case fresh: False
      have row: "\<forall>p \<in> set (adj ! u). fst p < length dist"
        using tgt u len by (auto dest: nth_mem)
      from relax_safe [OF ud row, of rest] obtain dist' pq' where
        r: "relax (adj ! u) u dist rest = Inr (dist', pq')"
        and l: "length dist' = length dist"
        and ch: "\<forall>v. dist' ! v \<noteq> dist ! v \<longrightarrow> v \<in> fst ` set (adj ! u)"
        and fr2: "\<forall>e \<in> set pq'. e \<in> set rest \<or> snd e \<in> fst ` set (adj ! u)"
        by blast
      have nb: "(src, v) \<in> (edges adj)\<^sup>*" if "v \<in> fst ` set (adj ! u)" for v
      proof -
        from that u have "(u, v) \<in> edges adj" by (auto simp: edges_def)
        with ur show ?thesis by (rule rtrancl_into_rtrancl)
      qed
      have "dj_safe adj src dist' pq'"
        unfolding dj_safe_def
      proof (intro conjI ballI allI impI)
        show "length dist' = length adj" using l len by simp
        show "src < length adj" by (rule src)
      next
        fix row p assume "row \<in> set adj" "p \<in> set row"
        with tgt show "fst p < length adj" by blast
      next
        fix e assume "e \<in> set pq'"
        with fr2 fr' nb show "(src, snd e) \<in> (edges adj)\<^sup>*" by blast
      next
        fix v assume v: "v < length adj" and "dist' ! v \<noteq> INT_MAX"
        with ch dr nb show "(src, v) \<in> (edges adj)\<^sup>*" by metis
      qed
      from IH2 [OF _ fresh _ r refl this] ud u
      have "\<exists>res. dijkstra_loop adj dist' pq' = Inr res \<and> length res = length adj \<and>
         (\<forall>v < length adj. res ! v \<noteq> INT_MAX \<longrightarrow> (src, v) \<in> (edges adj)\<^sup>*)"
        by simp
      moreover have "dijkstra_loop adj dist pq = dijkstra_loop adj dist' pq'"
        using dijkstra_loop_fresh [OF ne, of dist adj] ud fresh u r
        unfolding u_def d_def top_def rest_def by simp
      ultimately show ?thesis by simp
    qed
  qed
qed

subsection \<open>Walks and their costs\<close>

text \<open>\<open>walk adj src v k\<close>: some sequence of adjacency entries leads from \<open>src\<close> to \<open>v\<close>
  and their costs add up to \<open>k\<close>.\<close>

inductive walk :: "(nat \<times> int) list list \<Rightarrow> nat \<Rightarrow> nat \<Rightarrow> int \<Rightarrow> bool"
  for adj :: "(nat \<times> int) list list" and src :: nat where
  walk_start: "walk adj src src 0"
| walk_step: "walk adj src u k \<Longrightarrow> u < length adj \<Longrightarrow> (v, c) \<in> set (adj ! u) \<Longrightarrow>
     walk adj src v (k + c)"

definition min_cost :: "(nat \<times> int) list list \<Rightarrow> nat \<Rightarrow> nat \<Rightarrow> int \<Rightarrow> bool" where
  "min_cost adj src v d \<longleftrightarrow> walk adj src v d \<and> (\<forall>k. walk adj src v k \<longrightarrow> d \<le> k)"

definition nonneg_costs :: "(nat \<times> int) list list \<Rightarrow> bool" where
  "nonneg_costs adj \<longleftrightarrow> (\<forall>row \<in> set adj. \<forall>p \<in> set row. 0 \<le> snd p)"

text \<open>
  No sum of the main loop leaves 32 bits. The loop adds the cost of a route to the
  distance of the location the route leaves when it takes that location from the
  frontier; by then the distance is the least cost, and it is below \<open>INT_MAX\<close>.
\<close>

definition no_overflow :: "(nat \<times> int) list list \<Rightarrow> nat \<Rightarrow> bool" where
  "no_overflow adj src \<longleftrightarrow>
     (\<forall>u d. min_cost adj src u d \<and> d < INT_MAX \<longrightarrow>
        (\<forall>p \<in> set (adj ! u). d + snd p \<le> INT_MAX))"

lemma walk_nonneg:
  assumes "walk adj src v k" and "nonneg_costs adj"
  shows "0 \<le> k"
  using assms(1)
proof (induction rule: walk.induct)
  case walk_start
  then show ?case by simp
next
  case (walk_step u k v c)
  from assms(2) walk_step.hyps(2,3) have "0 \<le> c"
    by (fastforce simp: nonneg_costs_def dest: nth_mem)
  with walk_step.IH show ?case by simp
qed

lemma walk_reach: "walk adj src v k \<Longrightarrow> (src, v) \<in> (edges adj)\<^sup>*"
proof (induction rule: walk.induct)
  case walk_start
  then show ?case by simp
next
  case (walk_step u k v c)
  then have "(u, v) \<in> edges adj" by (auto simp: edges_def)
  with walk_step.IH show ?case by (rule rtrancl_into_rtrancl)
qed

lemma reach_walk: "(src, v) \<in> (edges adj)\<^sup>* \<Longrightarrow> \<exists>k. walk adj src v k"
proof (induction rule: rtrancl_induct)
  case base
  show ?case by (blast intro: walk_start)
next
  case (step y z)
  then obtain k c where "walk adj src y k" and "y < length adj" and "(z, c) \<in> set (adj ! y)"
    by (auto simp: edges_def)
  then have "walk adj src z (k + c)" by (rule walk_step)
  then show ?case by blast
qed

subsection \<open>One row relaxed without overflow\<close>

lemma relax_opt:
  assumes "u < length dist"
    and "\<forall>p \<in> set es. fst p < length dist \<and> 0 \<le> snd p \<and> dist ! u + snd p \<le> INT_MAX"
    and "0 \<le> dist ! u"
    and "\<forall>v < length dist. dist ! v \<le> INT_MAX"
  shows "\<exists>dist' pq'. relax es u dist pq = Inr (dist', pq') \<and>
           length dist' = length dist \<and>
           dist' ! u = dist ! u \<and>
           (\<forall>v < length dist. dist' ! v \<le> dist ! v) \<and>
           (\<forall>v < length dist. dist' ! v \<noteq> dist ! v \<longrightarrow>
              (dist' ! v, v) \<in> set pq' \<and> (\<exists>c. (v, c) \<in> set es \<and> dist' ! v = dist ! u + c)) \<and>
           (\<forall>p \<in> set es. dist' ! fst p \<le> dist ! u + snd p) \<and>
           set pq \<subseteq> set pq' \<and>
           (\<forall>e \<in> set pq'. e \<in> set pq \<or>
              ((snd e, fst e - dist ! u) \<in> set es \<and> dist' ! snd e \<le> fst e \<and>
               fst e < INT_MAX))"
  using assms
proof (induction es arbitrary: dist pq)
  case Nil
  then show ?case by simp
next
  case (Cons e es)
  obtain v c where e: "e = (v, c)" by (cases e)
  from Cons.prems e have u: "u < length dist" and v: "v < length dist" and c: "0 \<le> c"
    and bound: "dist ! u + c \<le> INT_MAX" and du: "0 \<le> dist ! u"
    and rest: "\<forall>p \<in> set es. fst p < length dist \<and> 0 \<le> snd p \<and> dist ! u + snd p \<le> INT_MAX"
    and top: "\<forall>x < length dist. dist ! x \<le> INT_MAX"
    by simp_all
  have w: "wrap32 (dist ! u + c) = dist ! u + c"
    using c du bound by (intro wrap32_id) (simp_all add: INT_MAX_def)
  show ?case
  proof (cases "dist ! v > dist ! u + c")
    case True
    with c have vu: "v \<noteq> u" by auto
    from True top v have below: "dist ! u + c < INT_MAX" by fastforce
    let ?d = "dist[v := dist ! u + c]"
    let ?pq = "pq @ [(dist ! u + c, v)]"
    have du': "?d ! u = dist ! u" using vu by simp
    have top': "\<forall>x < length ?d. ?d ! x \<le> INT_MAX"
      using top below v by (auto simp: nth_list_update)
    have pre: "u < length ?d"
      "\<forall>p \<in> set es. fst p < length ?d \<and> 0 \<le> snd p \<and> ?d ! u + snd p \<le> INT_MAX"
      "0 \<le> ?d ! u"
      using u rest du du' by simp_all
    from Cons.IH [OF pre top', of ?pq] obtain dist' pq' where
      r: "relax es u ?d ?pq = Inr (dist', pq')"
      and l: "length dist' = length ?d"
      and su: "dist' ! u = ?d ! u"
      and mono: "\<forall>x < length ?d. dist' ! x \<le> ?d ! x"
      and ch: "\<forall>x < length ?d. dist' ! x \<noteq> ?d ! x \<longrightarrow>
              (dist' ! x, x) \<in> set pq' \<and> (\<exists>c. (x, c) \<in> set es \<and> dist' ! x = ?d ! u + c)"
      and rl: "\<forall>p \<in> set es. dist' ! fst p \<le> ?d ! u + snd p"
      and sub: "set ?pq \<subseteq> set pq'"
      and fr: "\<forall>x \<in> set pq'. x \<in> set ?pq \<or>
              ((snd x, fst x - ?d ! u) \<in> set es \<and> dist' ! snd x \<le> fst x \<and> fst x < INT_MAX)"
      by blast
    have r': "relax (e # es) u dist pq = Inr (dist', pq')"
      using r u v True w by (simp add: e Let_def)
    have mono': "\<forall>x < length dist. dist' ! x \<le> dist ! x"
    proof (intro allI impI)
      fix x assume x: "x < length dist"
      with mono have "dist' ! x \<le> ?d ! x" by simp
      also have "?d ! x \<le> dist ! x" using True x by (cases "x = v") simp_all
      finally show "dist' ! x \<le> dist ! x" .
    qed
    have ch': "\<forall>x < length dist. dist' ! x \<noteq> dist ! x \<longrightarrow>
        (dist' ! x, x) \<in> set pq' \<and> (\<exists>c. (x, c) \<in> set (e # es) \<and> dist' ! x = dist ! u + c)"
    proof (intro allI impI)
      fix x assume x: "x < length dist" and neq: "dist' ! x \<noteq> dist ! x"
      show "(dist' ! x, x) \<in> set pq' \<and> (\<exists>c. (x, c) \<in> set (e # es) \<and> dist' ! x = dist ! u + c)"
      proof (cases "dist' ! x = ?d ! x")
        case False
        with ch x du' show ?thesis by auto
      next
        case same: True
        with neq have "x = v" by (cases "x = v") auto
        with same v have "dist' ! x = dist ! u + c" by simp
        with sub \<open>x = v\<close> e show ?thesis by auto
      qed
    qed
    have rl': "\<forall>p \<in> set (e # es). dist' ! fst p \<le> dist ! u + snd p"
      using rl du' mono v e by auto
    have fr': "\<forall>x \<in> set pq'. x \<in> set pq \<or>
        ((snd x, fst x - dist ! u) \<in> set (e # es) \<and> dist' ! snd x \<le> fst x \<and>
         fst x < INT_MAX)"
    proof
      fix x assume "x \<in> set pq'"
      with fr du' consider "x \<in> set pq" | "x = (dist ! u + c, v)"
        | "(snd x, fst x - dist ! u) \<in> set es \<and> dist' ! snd x \<le> fst x \<and> fst x < INT_MAX"
        by auto
      then show "x \<in> set pq \<or>
          ((snd x, fst x - dist ! u) \<in> set (e # es) \<and> dist' ! snd x \<le> fst x \<and>
           fst x < INT_MAX)"
      proof cases
        case 2
        with mono v e below show ?thesis by auto
      qed auto
    qed
    from r' l su du' mono' ch' rl' sub fr' show ?thesis by auto
  next
    case False
    from Cons.IH [OF u rest du top, of pq] obtain dist' pq' where
      r: "relax es u dist pq = Inr (dist', pq')"
      and l: "length dist' = length dist"
      and su: "dist' ! u = dist ! u"
      and mono: "\<forall>x < length dist. dist' ! x \<le> dist ! x"
      and ch: "\<forall>x < length dist. dist' ! x \<noteq> dist ! x \<longrightarrow>
              (dist' ! x, x) \<in> set pq' \<and> (\<exists>c. (x, c) \<in> set es \<and> dist' ! x = dist ! u + c)"
      and rl: "\<forall>p \<in> set es. dist' ! fst p \<le> dist ! u + snd p"
      and sub: "set pq \<subseteq> set pq'"
      and fr: "\<forall>x \<in> set pq'. x \<in> set pq \<or>
              ((snd x, fst x - dist ! u) \<in> set es \<and> dist' ! snd x \<le> fst x \<and> fst x < INT_MAX)"
      by blast
    have r': "relax (e # es) u dist pq = Inr (dist', pq')"
      using r u v False w by (simp add: e)
    have "dist' ! v \<le> dist ! u + c" using mono v False by fastforce
    with rl e have rl': "\<forall>p \<in> set (e # es). dist' ! fst p \<le> dist ! u + snd p" by simp
    have ch': "\<forall>x < length dist. dist' ! x \<noteq> dist ! x \<longrightarrow>
        (dist' ! x, x) \<in> set pq' \<and> (\<exists>c. (x, c) \<in> set (e # es) \<and> dist' ! x = dist ! u + c)"
      using ch by auto
    have fr': "\<forall>x \<in> set pq'. x \<in> set pq \<or>
        ((snd x, fst x - dist ! u) \<in> set (e # es) \<and> dist' ! snd x \<le> fst x \<and>
         fst x < INT_MAX)"
      using fr by auto
    from r' l su mono ch' rl' sub fr' show ?thesis by blast
  qed
qed

subsection \<open>The invariant of the main loop\<close>

text \<open>A location is settled when it has a distance and no frontier entry carries it.\<close>

definition settled :: "int list \<Rightarrow> (int \<times> nat) list \<Rightarrow> nat \<Rightarrow> bool" where
  "settled dist pq v \<longleftrightarrow> dist ! v \<noteq> INT_MAX \<and> (dist ! v, v) \<notin> set pq"

definition dj_inv :: "(nat \<times> int) list list \<Rightarrow> nat \<Rightarrow> int list \<Rightarrow> (int \<times> nat) list \<Rightarrow> bool"
  where
  "dj_inv adj src dist pq \<longleftrightarrow>
     length dist = length adj \<and>
     dist ! src \<le> 0 \<and>
     (\<forall>v < length adj. dist ! v \<le> INT_MAX) \<and>
     (\<forall>v < length adj. dist ! v \<noteq> INT_MAX \<longrightarrow> walk adj src v (dist ! v)) \<and>
     (\<forall>e \<in> set pq. snd e < length adj \<and> walk adj src (snd e) (fst e) \<and> dist ! snd e \<le> fst e) \<and>
     (\<forall>v < length adj. settled dist pq v \<longrightarrow>
        (\<forall>k. walk adj src v k \<longrightarrow> dist ! v \<le> k) \<and>
        (\<forall>p \<in> set (adj ! v). dist ! fst p \<le> dist ! v + snd p)) \<and>
     (\<forall>e \<in> set pq. fst e < INT_MAX)"

lemma dj_invD:
  assumes "dj_inv adj src dist pq"
  shows "length dist = length adj"
    and "dist ! src \<le> 0"
    and "\<forall>v < length adj. dist ! v \<le> INT_MAX"
    and "\<forall>v < length adj. dist ! v \<noteq> INT_MAX \<longrightarrow> walk adj src v (dist ! v)"
    and "\<forall>e \<in> set pq. snd e < length adj \<and> walk adj src (snd e) (fst e) \<and> dist ! snd e \<le> fst e"
    and "\<forall>v < length adj. settled dist pq v \<longrightarrow>
        (\<forall>k. walk adj src v k \<longrightarrow> dist ! v \<le> k) \<and>
        (\<forall>p \<in> set (adj ! v). dist ! fst p \<le> dist ! v + snd p)"
    and "\<forall>e \<in> set pq. fst e < INT_MAX"
  using assms unfolding dj_inv_def by - (elim conjE, assumption)+

definition graph_ok :: "(nat \<times> int) list list \<Rightarrow> nat \<Rightarrow> bool" where
  "graph_ok adj src \<longleftrightarrow>
     src < length adj \<and>
     (\<forall>row \<in> set adj. \<forall>p \<in> set row. fst p < length adj) \<and>
     nonneg_costs adj \<and> no_overflow adj src"

lemma graph_okD:
  assumes "graph_ok adj src"
  shows "src < length adj"
    and "\<forall>row \<in> set adj. \<forall>p \<in> set row. fst p < length adj"
    and "nonneg_costs adj"
    and "no_overflow adj src"
  using assms unfolding graph_ok_def by - (elim conjE, assumption)+

lemma walk_lt:
  assumes "walk adj src v k" and "graph_ok adj src"
  shows "v < length adj"
  using walk_reach [OF assms(1)] graph_okD(1,2) [OF assms(2)] by (rule reach_lt)

text \<open>The entry taken from the frontier, when it is not stale, carries the least cost of
  any walk to its location.\<close>

lemma top_is_least:
  assumes g: "graph_ok adj src" and i: "dj_inv adj src dist pq" and ne: "pq \<noteq> []"
    and fresh: "\<not> dist ! snd (pq_top pq) < fst (pq_top pq)"
    and wk: "walk adj src (snd (pq_top pq)) k"
  shows "dist ! snd (pq_top pq) \<le> k"
proof -
  define u where "u = snd (pq_top pq)"
  define d where "d = fst (pq_top pq)"
  note nn = graph_okD(3) [OF g]
  have top: "(d, u) \<in> set pq" using pq_top_in [OF ne] by (simp add: d_def u_def)
  with dj_invD(5) [OF i] have u: "u < length adj" and "dist ! u \<le> d" by auto
  with fresh have du: "dist ! u = d" by (simp add: d_def u_def)
  from dj_invD(3) [OF i] u du have dmax: "d \<le> INT_MAX" by auto
  have least: "d \<le> x" if "(x, y) \<in> set pq" for x y
  proof -
    from that ne have "pq_top pq \<le> (x, y)" by (simp add: pq_top_Min)
    then show ?thesis by (auto simp: d_def less_eq_prod_def)
  qed
  have unsettled: "d \<le> dist ! v" if "v < length adj" and "\<not> settled dist pq v" for v
  proof (cases "dist ! v = INT_MAX")
    case True
    with dmax show ?thesis by simp
  next
    case False
    with that(2) have "(dist ! v, v) \<in> set pq" by (simp add: settled_def)
    then show ?thesis by (rule least)
  qed
  have key: "d \<le> j \<or> settled dist pq v" if "walk adj src v j" for v j
    using that
  proof (induction rule: walk.induct)
    case walk_start
    show ?case
    proof (cases "settled dist pq src")
      case False
      from unsettled [OF graph_okD(1) [OF g] False] dj_invD(2) [OF i] show ?thesis by simp
    qed simp
  next
    case (walk_step y j z c)
    from nn walk_step.hyps(2,3) have c: "0 \<le> c"
      by (fastforce simp: nonneg_costs_def dest: nth_mem)
    have z: "z < length adj"
      using walk_lt [OF walk.walk_step [OF walk_step.hyps] g] .
    from walk_step.IH show ?case
    proof
      assume "d \<le> j"
      with c show ?thesis by simp
    next
      assume sy: "settled dist pq y"
      with dj_invD(6) [OF i] walk_step.hyps
      have "dist ! y \<le> j" and "dist ! z \<le> dist ! y + c" by fastforce+
      then have zb: "dist ! z \<le> j + c" by simp
      show ?thesis
      proof (cases "settled dist pq z")
        case False
        from unsettled [OF z False] zb show ?thesis by simp
      qed simp
    qed
  qed
  from key [OF wk [folded u_def]] show ?thesis
  proof
    assume "d \<le> k"
    with du show ?thesis by (simp add: u_def)
  next
    assume "settled dist pq u"
    with dj_invD(6) [OF i] u wk show ?thesis by (auto simp: u_def)
  qed
qed

lemma in_pq_pop: "e \<in> set pq \<Longrightarrow> e \<noteq> pq_top pq \<Longrightarrow> e \<in> set (pq_pop pq)"
  by (simp add: pq_pop_def)

lemma dj_inv_stale:
  assumes i: "dj_inv adj src dist pq" and ne: "pq \<noteq> []"
    and stale: "dist ! snd (pq_top pq) < fst (pq_top pq)"
  shows "dj_inv adj src dist (pq_pop pq)"
proof -
  have keep: "settled dist pq v" if "settled dist (pq_pop pq) v" for v
  proof -
    from that have a: "dist ! v \<noteq> INT_MAX" and b: "(dist ! v, v) \<notin> set (pq_pop pq)"
      by (simp_all add: settled_def)
    have "(dist ! v, v) \<noteq> pq_top pq"
    proof
      assume "(dist ! v, v) = pq_top pq"
      then have "fst (pq_top pq) = dist ! v" and "snd (pq_top pq) = v"
        by (metis fst_conv, metis snd_conv)
      with stale show False by simp
    qed
    with b in_pq_pop [of "(dist ! v, v)" pq] have "(dist ! v, v) \<notin> set pq" by auto
    with a show ?thesis by (simp add: settled_def)
  qed
  show ?thesis
    unfolding dj_inv_def
  proof (intro conjI)
    show "length dist = length adj" by (rule dj_invD(1) [OF i])
    show "dist ! src \<le> 0" by (rule dj_invD(2) [OF i])
    show "\<forall>v < length adj. dist ! v \<le> INT_MAX" by (rule dj_invD(3) [OF i])
    show "\<forall>v < length adj. dist ! v \<noteq> INT_MAX \<longrightarrow> walk adj src v (dist ! v)"
      by (rule dj_invD(4) [OF i])
    show "\<forall>e \<in> set (pq_pop pq).
        snd e < length adj \<and> walk adj src (snd e) (fst e) \<and> dist ! snd e \<le> fst e"
      using dj_invD(5) [OF i] set_pq_pop [of pq] by blast
    show "\<forall>v < length adj. settled dist (pq_pop pq) v \<longrightarrow>
        (\<forall>k. walk adj src v k \<longrightarrow> dist ! v \<le> k) \<and>
        (\<forall>p \<in> set (adj ! v). dist ! fst p \<le> dist ! v + snd p)"
      using dj_invD(6) [OF i] keep by blast
    show "\<forall>e \<in> set (pq_pop pq). fst e < INT_MAX"
      using dj_invD(7) [OF i] set_pq_pop [of pq] by blast
  qed
qed

lemma dj_inv_fresh:
  assumes g: "graph_ok adj src" and i: "dj_inv adj src dist pq" and ne: "pq \<noteq> []"
    and fresh: "\<not> dist ! snd (pq_top pq) < fst (pq_top pq)"
  shows "\<exists>dist' pq'.
     relax (adj ! snd (pq_top pq)) (snd (pq_top pq)) dist (pq_pop pq) = Inr (dist', pq') \<and>
     dj_inv adj src dist' pq'"
proof -
  define u where "u = snd (pq_top pq)"
  define d where "d = fst (pq_top pq)"
  define rest where "rest = pq_pop pq"
  note len = dj_invD(1) [OF i]
  note tgt = graph_okD(2) [OF g]
  note nn = graph_okD(3) [OF g]
  have top: "(d, u) \<in> set pq" using pq_top_in [OF ne] by (simp add: d_def u_def)
  with dj_invD(5) [OF i] have u: "u < length adj" and wu: "walk adj src u d" and "dist ! u \<le> d"
    by auto
  with fresh have du: "dist ! u = d" by (simp add: d_def u_def)
  have least: "dist ! u \<le> k" if "walk adj src u k" for k
    using top_is_least [OF g i ne fresh] that by (simp add: u_def)
  from dj_invD(7) [OF i] top have dlt: "d < INT_MAX" by auto
  have "min_cost adj src u d"
    unfolding min_cost_def using wu least du by simp
  with graph_okD(4) [OF g] dlt du
  have room': "\<forall>p \<in> set (adj ! u). dist ! u + snd p \<le> INT_MAX"
    unfolding no_overflow_def by blast
  have du0: "0 \<le> dist ! u" using walk_nonneg [OF wu nn] du by simp
  have ud: "u < length dist" using u len by simp
  have row: "\<forall>p \<in> set (adj ! u). fst p < length dist \<and> 0 \<le> snd p \<and> dist ! u + snd p \<le> INT_MAX"
  proof
    fix p assume p: "p \<in> set (adj ! u)"
    with tgt u len have "fst p < length dist" by (auto dest: nth_mem)
    moreover from nn u p have "0 \<le> snd p" by (auto simp: nonneg_costs_def dest: nth_mem)
    moreover from room' p have "dist ! u + snd p \<le> INT_MAX" by blast
    ultimately show "fst p < length dist \<and> 0 \<le> snd p \<and> dist ! u + snd p \<le> INT_MAX" by simp
  qed
  have cap: "\<forall>v < length dist. dist ! v \<le> INT_MAX"
    using dj_invD(3) [OF i] len by simp
  from relax_opt [OF ud row du0 cap, of rest] obtain dist' pq' where
    r: "relax (adj ! u) u dist rest = Inr (dist', pq')"
    and l: "length dist' = length dist"
    and su: "dist' ! u = dist ! u"
    and mono: "\<forall>x < length dist. dist' ! x \<le> dist ! x"
    and ch: "\<forall>x < length dist. dist' ! x \<noteq> dist ! x \<longrightarrow>
            (dist' ! x, x) \<in> set pq' \<and> (\<exists>c. (x, c) \<in> set (adj ! u) \<and> dist' ! x = dist ! u + c)"
    and rl: "\<forall>p \<in> set (adj ! u). dist' ! fst p \<le> dist ! u + snd p"
    and sub: "set rest \<subseteq> set pq'"
    and fr: "\<forall>x \<in> set pq'. x \<in> set rest \<or>
            ((snd x, fst x - dist ! u) \<in> set (adj ! u) \<and> dist' ! snd x \<le> fst x \<and>
             fst x < INT_MAX)"
    by blast
  have src: "src < length dist" using graph_okD(1) [OF g] len by simp
  have i1: "length dist' = length adj" using l len by simp
  have i2: "dist' ! src \<le> 0" using mono src dj_invD(2) [OF i] by fastforce
  have i3: "\<forall>v < length adj. dist' ! v \<le> INT_MAX"
    using mono dj_invD(3) [OF i] len by fastforce
  have i4: "\<forall>v < length adj. dist' ! v \<noteq> INT_MAX \<longrightarrow> walk adj src v (dist' ! v)"
  proof (intro allI impI)
    fix v assume v: "v < length adj" and fin: "dist' ! v \<noteq> INT_MAX"
    show "walk adj src v (dist' ! v)"
    proof (cases "dist' ! v = dist ! v")
      case True
      with dj_invD(4) [OF i] v fin show ?thesis by simp
    next
      case False
      with ch v len obtain c where "(v, c) \<in> set (adj ! u)" and "dist' ! v = dist ! u + c"
        by auto
      with walk_step [OF wu u this(1)] du show ?thesis by simp
    qed
  qed
  have i5: "\<forall>e \<in> set pq'. snd e < length adj \<and> walk adj src (snd e) (fst e) \<and>
      dist' ! snd e \<le> fst e"
  proof
    fix e assume "e \<in> set pq'"
    with fr consider "e \<in> set rest"
      | "(snd e, fst e - dist ! u) \<in> set (adj ! u)" and "dist' ! snd e \<le> fst e"
      by blast
    then show "snd e < length adj \<and> walk adj src (snd e) (fst e) \<and> dist' ! snd e \<le> fst e"
    proof cases
      case 1
      with set_pq_pop [of pq] have "e \<in> set pq" by (auto simp: rest_def)
      with dj_invD(5) [OF i]
      have a: "snd e < length adj" and b: "walk adj src (snd e) (fst e)"
        and c: "dist ! snd e \<le> fst e" by auto
      from mono a len have "dist' ! snd e \<le> dist ! snd e" by simp
      with a b c show ?thesis by simp
    next
      case 2
      from walk_step [OF wu u 2(1)] du have w: "walk adj src (snd e) (fst e)" by simp
      from walk_lt [OF w g] w 2(2) show ?thesis by simp
    qed
  qed
  have i6: "\<forall>v < length adj. settled dist' pq' v \<longrightarrow>
      (\<forall>k. walk adj src v k \<longrightarrow> dist' ! v \<le> k) \<and>
      (\<forall>p \<in> set (adj ! v). dist' ! fst p \<le> dist' ! v + snd p)"
  proof (intro allI impI)
    fix v assume v: "v < length adj" and st: "settled dist' pq' v"
    then have fin: "dist' ! v \<noteq> INT_MAX" and out: "(dist' ! v, v) \<notin> set pq'"
      by (simp_all add: settled_def)
    have same: "dist' ! v = dist ! v"
    proof (rule ccontr)
      assume "dist' ! v \<noteq> dist ! v"
      with ch v len have "(dist' ! v, v) \<in> set pq'" by simp
      with out show False by simp
    qed
    show "(\<forall>k. walk adj src v k \<longrightarrow> dist' ! v \<le> k) \<and>
      (\<forall>p \<in> set (adj ! v). dist' ! fst p \<le> dist' ! v + snd p)"
    proof (cases "(dist ! v, v) \<in> set pq")
      case True
      from out same sub have "(dist ! v, v) \<notin> set rest" by auto
      with True in_pq_pop [of "(dist ! v, v)" pq] have "(dist ! v, v) = pq_top pq"
        by (auto simp: rest_def)
      then have vu: "v = u" unfolding u_def by (metis snd_conv)
      with least su rl show ?thesis by simp
    next
      case False
      with fin same have "settled dist pq v" by (simp add: settled_def)
      with dj_invD(6) [OF i] v
      have a: "\<forall>k. walk adj src v k \<longrightarrow> dist ! v \<le> k"
        and b: "\<forall>p \<in> set (adj ! v). dist ! fst p \<le> dist ! v + snd p" by simp_all
      have "dist' ! fst p \<le> dist' ! v + snd p" if p: "p \<in> set (adj ! v)" for p
      proof -
        from tgt v p len have "fst p < length dist" by (auto dest: nth_mem)
        with mono have "dist' ! fst p \<le> dist ! fst p" by simp
        with b p same show ?thesis by fastforce
      qed
      with a same show ?thesis by simp
    qed
  qed
  have i7: "\<forall>e \<in> set pq'. fst e < INT_MAX"
  proof
    fix e assume "e \<in> set pq'"
    with fr have "e \<in> set rest \<or> fst e < INT_MAX" by blast
    then show "fst e < INT_MAX"
      using dj_invD(7) [OF i] set_pq_pop [of pq] by (auto simp: rest_def)
  qed
  have "dj_inv adj src dist' pq'"
    unfolding dj_inv_def using i1 i2 i3 i4 i5 i6 i7 by (intro conjI)
  with r show ?thesis by (auto simp: u_def rest_def)
qed

lemma dijkstra_loop_opt:
  "graph_ok adj src \<Longrightarrow> dj_inv adj src dist pq \<Longrightarrow>
     \<exists>res. dijkstra_loop adj dist pq = Inr res \<and> dj_inv adj src res []"
proof (induction adj dist pq rule: dijkstra_loop.induct)
  case (1 adj dist pq)
  note g = "1.prems"(1) and i = "1.prems"(2)
  show ?case
  proof (cases "pq = []")
    case True
    with i show ?thesis by (simp add: dijkstra_loop_empty)
  next
    case ne: False
    define top where "top = pq_top pq"
    define u where "u = snd top"
    define d where "d = fst top"
    define rest where "rest = pq_pop pq"
    note IH1 = "1.IH"(1) [OF ne top_def rest_def d_def u_def]
    note IH2 = "1.IH"(2) [OF ne top_def rest_def d_def u_def]
    have "top \<in> set pq" unfolding top_def using ne by (rule pq_top_in)
    with dj_invD(5) [OF i] have u: "u < length adj" by (simp add: u_def)
    with dj_invD(1) [OF i] have ud: "u < length dist" by simp
    show ?thesis
    proof (cases "dist ! u < d")
      case True
      have "dj_inv adj src dist rest"
        unfolding rest_def using i ne True [unfolded u_def d_def top_def] by (rule dj_inv_stale)
      from IH1 [OF _ True g this] ud
      have "\<exists>res. dijkstra_loop adj dist rest = Inr res \<and> dj_inv adj src res []" by simp
      moreover have "dijkstra_loop adj dist pq = dijkstra_loop adj dist rest"
        using ne ud True unfolding u_def d_def top_def rest_def by (rule dijkstra_loop_stale)
      ultimately show ?thesis by simp
    next
      case fresh: False
      from dj_inv_fresh [OF g i ne fresh [unfolded u_def d_def top_def]]
      obtain dist' pq' where
        r: "relax (adj ! u) u dist rest = Inr (dist', pq')" and i': "dj_inv adj src dist' pq'"
        unfolding u_def top_def rest_def by blast
      from IH2 [OF _ fresh _ r refl g i'] ud u
      have "\<exists>res. dijkstra_loop adj dist' pq' = Inr res \<and> dj_inv adj src res []" by simp
      moreover have "dijkstra_loop adj dist pq = dijkstra_loop adj dist' pq'"
        using dijkstra_loop_fresh [OF ne, of dist adj] ud fresh u r
        unfolding u_def d_def top_def rest_def by simp
      ultimately show ?thesis by simp
    qed
  qed
qed

lemma min_cost_exists:
  assumes "walk adj src v k" and "nonneg_costs adj"
  shows "\<exists>d. min_cost adj src v d"
proof -
  define P where "P n \<longleftrightarrow> walk adj src v (int n)" for n
  from walk_nonneg [OF assms] assms(1) have "P (nat k)" by (simp add: P_def)
  then have least: "P (LEAST n. P n)" by (rule LeastI)
  have below: "(LEAST n. P n) \<le> n" if "P n" for n
    using that by (rule Least_le)
  have "int (LEAST n. P n) \<le> j" if "walk adj src v j" for j
  proof -
    from walk_nonneg [OF that assms(2)] that have "P (nat j)" by (simp add: P_def)
    from below [OF this] walk_nonneg [OF that assms(2)] show ?thesis by linarith
  qed
  with least show ?thesis unfolding min_cost_def P_def by blast
qed

lemma min_cost_unique: "min_cost adj src v d \<Longrightarrow> min_cost adj src v d' \<Longrightarrow> d = d'"
  unfolding min_cost_def by (meson order_antisym)

text \<open>When the frontier is empty, a distance is the least cost if that is below
  \<open>INT_MAX\<close>, and otherwise it is still \<open>INT_MAX\<close>.\<close>

lemma dj_inv_done:
  assumes g: "graph_ok adj src" and i: "dj_inv adj src dist []"
    and v: "v < length adj" and mc: "min_cost adj src v d"
  shows "(d < INT_MAX \<longrightarrow> dist ! v = d) \<and> (INT_MAX \<le> d \<longrightarrow> dist ! v = INT_MAX)"
proof -
  note nn = graph_okD(3) [OF g]
  have st: "settled dist [] x \<longleftrightarrow> dist ! x \<noteq> INT_MAX" for x
    by (simp add: settled_def)
  have below: "k < INT_MAX \<longrightarrow> dist ! x \<le> k" if "walk adj src x k" for x k
    using that
  proof (induction rule: walk.induct)
    case walk_start
    from dj_invD(2) [OF i] show ?case by simp
  next
    case (walk_step y j z c)
    from nn walk_step.hyps(2,3) have c: "0 \<le> c"
      by (fastforce simp: nonneg_costs_def dest: nth_mem)
    show ?case
    proof
      assume lt: "j + c < INT_MAX"
      with c walk_step.IH have "dist ! y \<le> j" and "dist ! y \<noteq> INT_MAX" by simp_all
      then have "settled dist [] y" by (simp add: st)
      with dj_invD(6) [OF i] walk_step.hyps(2,3) have "dist ! z \<le> dist ! y + c" by fastforce
      with \<open>dist ! y \<le> j\<close> show "dist ! z \<le> j + c" by simp
    qed
  qed
  from mc have wd: "walk adj src v d" and least: "\<And>k. walk adj src v k \<Longrightarrow> d \<le> k"
    by (simp_all add: min_cost_def)
  have own: "walk adj src v (dist ! v)" if "dist ! v \<noteq> INT_MAX"
    using dj_invD(4) [OF i] v that by simp
  have a: "dist ! v = d" if "d < INT_MAX"
  proof -
    from below [OF wd] that have "dist ! v \<le> d" by simp
    moreover from this that have "dist ! v \<noteq> INT_MAX" by simp
    then have "d \<le> dist ! v" using own least by simp
    ultimately show ?thesis by simp
  qed
  have b: "dist ! v = INT_MAX" if "INT_MAX \<le> d"
  proof (rule ccontr)
    assume ne: "dist ! v \<noteq> INT_MAX"
    then have "d \<le> dist ! v" using own least by simp
    moreover from dj_invD(3) [OF i] v have "dist ! v \<le> INT_MAX" by simp
    ultimately show False using that ne by simp
  qed
  from a b show ?thesis by simp
qed

lemma dj_inv_start:
  assumes "src < length adj"
  shows "dj_inv adj src ((replicate (length adj) INT_MAX)[src := 0]) [(0, src)]"
  unfolding dj_inv_def settled_def
  using assms by (auto simp: nth_list_update INT_MAX_def intro: walk_start)

subsection \<open>A bound on all the costs that rules overflow out\<close>

text \<open>The sum of the costs of all adjacency entries; a route counts once for each direction.\<close>

definition total_cost :: "(nat \<times> int) list list \<Rightarrow> int" where
  "total_cost adj = sum_list (map snd (concat adj))"

definition row_cost :: "(nat \<times> int) list list \<Rightarrow> nat \<Rightarrow> int" where
  "row_cost adj v = sum_list (map snd (adj ! v))"

lemma total_cost_rows: "total_cost adj = sum (row_cost adj) {0..<length adj}"
proof -
  have "total_cost adj = sum_list (map (\<lambda>row. sum_list (map snd row)) adj)"
    unfolding total_cost_def by (induction adj) simp_all
  also have "map (\<lambda>row. sum_list (map snd row)) adj =
      map (\<lambda>row. sum_list (map snd row)) (map ((!) adj) [0..<length adj])"
    by (simp only: map_nth)
  also have "\<dots> = map (row_cost adj) [0..<length adj]"
    by (simp add: row_cost_def)
  also have "sum_list \<dots> = sum (row_cost adj) {0..<length adj}"
    by (simp add: interv_sum_list_conv_sum_set_nat)
  finally show ?thesis .
qed

lemma row_cost_nonneg:
  assumes "nonneg_costs adj" and "v < length adj"
  shows "0 \<le> row_cost adj v"
  unfolding row_cost_def using assms
  by (intro sum_list_nonneg) (auto simp: nonneg_costs_def dest: nth_mem)

lemma entry_le_row_cost:
  assumes "nonneg_costs adj" and "v < length adj" and "p \<in> set (adj ! v)"
  shows "snd p \<le> row_cost adj v"
  unfolding row_cost_def using assms
  by (intro member_le_sum_list) (auto simp: nonneg_costs_def dest: nth_mem)

lemma rows_le_total:
  assumes "nonneg_costs adj" and "distinct vs" and "\<forall>v \<in> set vs. v < length adj"
  shows "sum_list (map (row_cost adj) vs) \<le> total_cost adj"
proof -
  have "sum_list (map (row_cost adj) vs) = sum (row_cost adj) (set vs)"
    using assms(2) by (rule sum_list_distinct_conv_sum_set)
  also have "\<dots> \<le> sum (row_cost adj) {0..<length adj}"
    using assms(1,3) by (intro sum_mono2) (auto intro: row_cost_nonneg)
  finally show ?thesis by (simp add: total_cost_rows)
qed

lemma path_walk:
  assumes "rtrancl_path (\<lambda>x y. (x, y) \<in> edges adj) x xs z" and "nonneg_costs adj"
    and "walk adj src x k0"
  shows "\<exists>k. walk adj src z k \<and> k \<le> k0 + sum_list (map (row_cost adj) (butlast (x # xs)))"
  using assms(1,3)
proof (induction arbitrary: k0 rule: rtrancl_path.induct)
  case (base x)
  then show ?case by auto
next
  case (step x y ys z)
  from step.hyps(1) obtain c where x: "x < length adj" and e: "(y, c) \<in> set (adj ! x)"
    by (auto simp: edges_def)
  from walk_step [OF step.prems x e] have "walk adj src y (k0 + c)" .
  from step.IH [OF this] obtain k where
    w: "walk adj src z k" and b: "k \<le> k0 + c + sum_list (map (row_cost adj) (butlast (y # ys)))"
    by blast
  from entry_le_row_cost [OF assms(2) x e] have "c \<le> row_cost adj x" by simp
  with b have "k \<le> k0 + sum_list (map (row_cost adj) (butlast (x # y # ys)))" by simp
  with w show ?case by blast
qed

lemma path_vertices:
  assumes "rtrancl_path (\<lambda>x y. (x, y) \<in> edges adj) x xs z" and "x < length adj"
    and "\<forall>row \<in> set adj. \<forall>p \<in> set row. fst p < length adj"
  shows "\<forall>v \<in> set xs. v < length adj"
  using assms(1,2)
proof (induction rule: rtrancl_path.induct)
  case (base x)
  then show ?case by simp
next
  case (step x y ys z)
  from step.hyps(1) obtain c where "x < length adj" and "(y, c) \<in> set (adj ! x)"
    by (auto simp: edges_def)
  with assms(3) have "y < length adj" by (fastforce dest: nth_mem)
  with step.IH show ?case by simp
qed

lemma reach_path:
  "(x, z) \<in> (edges adj)\<^sup>* \<Longrightarrow> \<exists>xs. rtrancl_path (\<lambda>x y. (x, y) \<in> edges adj) x xs z"
proof (induction rule: converse_rtrancl_induct)
  case base
  show ?case by (blast intro: rtrancl_path.base)
next
  case (step x y)
  then show ?case by (blast intro: rtrancl_path.step)
qed

lemma no_overflow_total:
  assumes src: "src < length adj"
    and tgt: "\<forall>row \<in> set adj. \<forall>p \<in> set row. fst p < length adj"
    and nn: "nonneg_costs adj" and tot: "total_cost adj \<le> INT_MAX"
  shows "no_overflow adj src"
  unfolding no_overflow_def
proof (intro allI impI ballI)
  fix u d q
  assume "min_cost adj src u d \<and> d < INT_MAX" and q: "q \<in> set (adj ! u)"
  then have wd: "walk adj src u d" and least: "\<And>k. walk adj src u k \<Longrightarrow> d \<le> k"
    by (simp_all add: min_cost_def)
  from wd have ru: "(src, u) \<in> (edges adj)\<^sup>*" by (rule walk_reach)
  then have u: "u < length adj" using src tgt by (rule reach_lt)
  from reach_path [OF ru] obtain xs0 where "rtrancl_path (\<lambda>x y. (x, y) \<in> edges adj) src xs0 u"
    by blast
  then obtain xs where p: "rtrancl_path (\<lambda>x y. (x, y) \<in> edges adj) src xs u"
    and dx: "distinct (src # xs)"
    by (rule rtrancl_path_distinct)
  from path_walk [OF p nn walk_start] obtain k' where
    w: "walk adj src u k'" and b: "k' \<le> sum_list (map (row_cost adj) (butlast (src # xs)))"
    by auto
  have last: "last (src # xs) = u"
    using p rtrancl_path_last [OF p] by (cases xs) (auto elim: rtrancl_path.cases)
  then have split: "src # xs = butlast (src # xs) @ [u]"
    by (metis append_butlast_last_id list.distinct(1))
  have lt: "\<forall>v \<in> set (src # xs). v < length adj"
    using path_vertices [OF p src tgt] src by simp
  have "sum_list (map (row_cost adj) (butlast (src # xs))) + row_cost adj u =
        sum_list (map (row_cost adj) (src # xs))"
    by (subst (2) split) simp
  also have "\<dots> \<le> total_cost adj" using nn dx lt by (rule rows_le_total)
  finally have "k' + row_cost adj u \<le> total_cost adj" using b by simp
  with tot least [OF w] entry_le_row_cost [OF nn u q]
  show "d + snd q \<le> INT_MAX" by simp
qed

lemma dj_safe_start:
  assumes "src < length adj" and "\<forall>row \<in> set adj. \<forall>p \<in> set row. fst p < length adj"
  shows "dj_safe adj src ((replicate (length adj) INT_MAX)[src := 0]) [(0, src)]"
  unfolding dj_safe_def using assms by (auto simp: nth_list_update split: if_splits)

text \<open>
  Claim C8, as amended. In any reachable state the query from an existing location
  ends without error and prints one line per location. A location with no path from
  the source keeps the distance \<open>INT_MAX\<close> and is printed as unreachable, never with a
  distance, whatever the costs are. When every cost is non-negative and no sum of the
  loop leaves 32 bits (\<open>no_overflow\<close>: the least cost of a location, when below
  \<open>INT_MAX\<close>, plus the cost of any of its routes is at most \<open>INT_MAX\<close>; it is enough that
  the costs of all adjacency entries add up to at most \<open>INT_MAX\<close>), a location with a
  path has a least cost; if that is below \<open>INT_MAX\<close> it is the final distance and is
  printed with five times its value in 32 bits, and if it is \<open>INT_MAX\<close> or more the
  distance stays \<open>INT_MAX\<close> and the location is printed as unreachable.
\<close>

theorem unreachable_and_least_cost:
  assumes "locationToIndex (run init cs) start = Some src"
  shows "\<exists>dist plan.
      dijkstra_loop (adjList (run init cs))
        ((replicate (locationCount (run init cs)) INT_MAX)[src := 0]) [(0, src)] = Inr dist \<and>
      length dist = locationCount (run init cs) \<and>
      plan = map (\<lambda>i. (indexToLocation (run init cs) ! i, plan_line (dist ! i)))
               [0..<locationCount (run init cs)] \<and>
      optimizeDeliveryPlan (run init cs) start = Inr plan \<and>
      (\<forall>D v. locationToIndex (run init cs) D = Some v \<and>
           (src, v) \<notin> (edges (adjList (run init cs)))\<^sup>* \<longrightarrow>
         dist ! v = INT_MAX \<and> plan ! v = (D, Unreachable) \<and>
         (\<forall>d c. (D, ETA d c) \<notin> set plan)) \<and>
      (nonneg_costs (adjList (run init cs)) \<and> no_overflow (adjList (run init cs)) src \<longrightarrow>
         (\<forall>D v. locationToIndex (run init cs) D = Some v \<and>
              (src, v) \<in> (edges (adjList (run init cs)))\<^sup>* \<longrightarrow>
            (\<exists>d. min_cost (adjList (run init cs)) src v d \<and>
               (d < INT_MAX \<longrightarrow>
                  dist ! v = d \<and> plan ! v = (D, ETA d (wrap32 (d * 5)))) \<and>
               (INT_MAX \<le> d \<longrightarrow>
                  dist ! v = INT_MAX \<and> plan ! v = (D, Unreachable))))) \<and>
      (nonneg_costs (adjList (run init cs)) \<and> total_cost (adjList (run init cs)) \<le> INT_MAX \<longrightarrow>
         no_overflow (adjList (run init cs)) src)"
proof -
  let ?s = "run init cs"
  let ?adj = "adjList ?s"
  let ?names = "indexToLocation ?s"
  let ?n = "locationCount ?s"
  let ?E = "edges ?adj"
  have w: "wf ?s" by (rule wf_run)
  then have nm: "names_ok ?s" and ao: "adj_ok ?s" by (simp_all add: wf_def)
  from ao have len: "length ?adj = ?n"
    and tgt: "\<forall>row \<in> set ?adj. \<forall>p \<in> set row. fst p < length ?adj"
    by (simp_all add: adj_ok_def)
  from nm have nlen: "length ?names = ?n" and dn: "distinct ?names"
    and m: "\<And>name h. locationToIndex ?s name = Some h \<longleftrightarrow> h < ?n \<and> ?names ! h = name"
    by (simp_all add: names_ok_def)
  from names_ok_lookup [OF nm assms] have src: "src < ?n" by simp
  then have src': "src < length ?adj" using len by simp
  let ?d0 = "(replicate ?n INT_MAX)[src := 0]"
  from dijkstra_loop_safe [OF dj_safe_start [OF src' tgt]] len
  obtain dist where
    r: "dijkstra_loop ?adj ?d0 [(0, src)] = Inr dist"
    and l: "length dist = ?n"
    and fin: "\<forall>v < ?n. dist ! v \<noteq> INT_MAX \<longrightarrow> (src, v) \<in> ?E\<^sup>*"
    by auto
  define plan where "plan = map (\<lambda>i. (?names ! i, plan_line (dist ! i))) [0..<?n]"
  have opt: "optimizeDeliveryPlan ?s start = Inr plan"
    using assms src r l nlen by (simp add: optimizeDeliveryPlan_def plan_def)
  have at: "plan ! v = (?names ! v, plan_line (dist ! v))" if "v < ?n" for v
    using that by (simp add: plan_def)
  have unreach: "dist ! v = INT_MAX \<and> plan ! v = (D, Unreachable) \<and>
      (\<forall>d c. (D, ETA d c) \<notin> set plan)"
    if look: "locationToIndex ?s D = Some v" and nr: "(src, v) \<notin> ?E\<^sup>*" for D v
  proof -
    from m [of D v] look have v: "v < ?n" and name: "?names ! v = D" by simp_all
    from fin v nr have inf: "dist ! v = INT_MAX" by blast
    then have line: "plan_line (dist ! v) = Unreachable" by (simp add: plan_line_def)
    have "(D, ETA d c) \<notin> set plan" for d c
    proof
      assume "(D, ETA d c) \<in> set plan"
      then obtain i where i: "i < ?n" and ni: "?names ! i = D"
        and li: "plan_line (dist ! i) = ETA d c"
        by (auto simp: plan_def)
      from ni name i v dn nlen have "i = v" by (metis nth_eq_iff_index_eq)
      with li line show False by simp
    qed
    with inf at [OF v] name line show ?thesis by simp
  qed
  have least: "\<exists>d. min_cost ?adj src v d \<and>
      (d < INT_MAX \<longrightarrow> dist ! v = d \<and> plan ! v = (D, ETA d (wrap32 (d * 5)))) \<and>
      (INT_MAX \<le> d \<longrightarrow> dist ! v = INT_MAX \<and> plan ! v = (D, Unreachable))"
    if nn: "nonneg_costs ?adj" and ov: "no_overflow ?adj src"
      and look: "locationToIndex ?s D = Some v" and rv: "(src, v) \<in> ?E\<^sup>*" for D v
  proof -
    from m [of D v] look have v: "v < ?n" and name: "?names ! v = D" by simp_all
    have g: "graph_ok ?adj src"
      unfolding graph_ok_def using src' tgt nn ov by (intro conjI)
    from dijkstra_loop_opt [OF g dj_inv_start [OF src']] len r
    have final: "dj_inv ?adj src dist []" by simp
    from reach_walk [OF rv] obtain k where "walk ?adj src v k" by blast
    from min_cost_exists [OF this nn] obtain d where mc: "min_cost ?adj src v d" by blast
    from dj_inv_done [OF g final _ mc] v len
    have a: "d < INT_MAX \<longrightarrow> dist ! v = d" and b: "INT_MAX \<le> d \<longrightarrow> dist ! v = INT_MAX"
      by simp_all
    have "plan ! v = (D, ETA d (wrap32 (d * 5)))" if "d < INT_MAX"
      using a that at [OF v] name by (simp add: plan_line_def)
    moreover have "plan ! v = (D, Unreachable)" if "INT_MAX \<le> d"
      using b that at [OF v] name by (simp add: plan_line_def)
    ultimately show ?thesis using mc a b by blast
  qed
  have enough: "no_overflow ?adj src"
    if "nonneg_costs ?adj" and "total_cost ?adj \<le> INT_MAX"
    using src' tgt that by (rule no_overflow_total)
  have c1: "\<forall>D v. locationToIndex ?s D = Some v \<and> (src, v) \<notin> ?E\<^sup>* \<longrightarrow>
      dist ! v = INT_MAX \<and> plan ! v = (D, Unreachable) \<and> (\<forall>d c. (D, ETA d c) \<notin> set plan)"
    by (intro allI impI, elim conjE, rule unreach)
  have c2: "nonneg_costs ?adj \<and> no_overflow ?adj src \<longrightarrow>
      (\<forall>D v. locationToIndex ?s D = Some v \<and> (src, v) \<in> ?E\<^sup>* \<longrightarrow>
         (\<exists>d. min_cost ?adj src v d \<and>
            (d < INT_MAX \<longrightarrow> dist ! v = d \<and> plan ! v = (D, ETA d (wrap32 (d * 5)))) \<and>
            (INT_MAX \<le> d \<longrightarrow> dist ! v = INT_MAX \<and> plan ! v = (D, Unreachable))))"
    by (intro allI impI, elim conjE, rule least)
  have c3: "nonneg_costs ?adj \<and> total_cost ?adj \<le> INT_MAX \<longrightarrow> no_overflow ?adj src"
    by (intro impI, elim conjE, rule enough)
  show ?thesis
  proof (intro exI conjI)
    show "dijkstra_loop ?adj ?d0 [(0, src)] = Inr dist" by (rule r)
    show "length dist = ?n" by (rule l)
    show "plan = map (\<lambda>i. (?names ! i, plan_line (dist ! i))) [0..<?n]" by (rule plan_def)
    show "optimizeDeliveryPlan ?s start = Inr plan" by (rule opt)
  qed (rule c1 c2 c3)+
qed

text \<open>
  The example graph with an isolated D: the costs add up to 16, C is at its least cost
  3, and D, which the source cannot reach, is printed as unreachable.
\<close>

theorem unreachable_and_least_cost_witness:
  "optimizeDeliveryPlan (run init [AddLocation ''A'', AddLocation ''B'', AddLocation ''C'',
      AddRoute ''A'' ''B'' 1, AddRoute ''B'' ''C'' 2, AddRoute ''A'' ''C'' 5, AddLocation ''D''])
     ''A'' =
     Inr [(''A'', ETA 0 0), (''B'', ETA 1 5), (''C'', ETA 3 15), (''D'', Unreachable)] \<and>
   min_cost (adjList (run init [AddLocation ''A'', AddLocation ''B'', AddLocation ''C'',
      AddRoute ''A'' ''B'' 1, AddRoute ''B'' ''C'' 2, AddRoute ''A'' ''C'' 5, AddLocation ''D'']))
     0 2 3 \<and>
   (0, 3) \<notin> (edges (adjList (run init [AddLocation ''A'', AddLocation ''B'', AddLocation ''C'',
      AddRoute ''A'' ''B'' 1, AddRoute ''B'' ''C'' 2, AddRoute ''A'' ''C'' 5,
      AddLocation ''D''])))\<^sup>*"
proof -
  define s where "s = run init [AddLocation ''A'', AddLocation ''B'', AddLocation ''C'',
      AddRoute ''A'' ''B'' 1, AddRoute ''B'' ''C'' 2, AddRoute ''A'' ''C'' 5, AddLocation ''D'']"
  have a: "locationToIndex s ''A'' = Some 0" unfolding s_def by code_simp
  have c: "locationToIndex s ''C'' = Some 2" unfolding s_def by code_simp
  have adj: "adjList s = [[(1, 1), (2, 5)], [(0, 1), (2, 2)], [(1, 2), (0, 5)], []]"
    unfolding s_def by code_simp
  have run: "dijkstra_loop (adjList s) ((replicate (locationCount s) INT_MAX)[0 := 0]) [(0, 0)] =
      Inr [0, 1, 3, INT_MAX]" unfolding s_def by code_simp
  have plan: "optimizeDeliveryPlan s ''A'' =
      Inr [(''A'', ETA 0 0), (''B'', ETA 1 5), (''C'', ETA 3 15), (''D'', Unreachable)]"
    unfolding s_def by code_simp
  have nn: "nonneg_costs (adjList s)" by (simp add: adj nonneg_costs_def)
  have tot: "total_cost (adjList s) \<le> INT_MAX" by (simp add: adj total_cost_def INT_MAX_def)
  have "(0, 1) \<in> edges (adjList s)" and "(1, 2) \<in> edges (adjList s)"
    by (auto simp: adj edges_def)
  then have rc: "(0, 2) \<in> (edges (adjList s))\<^sup>*" by auto
  from unreachable_and_least_cost [OF a [unfolded s_def]] obtain dist plan' where
    r: "dijkstra_loop (adjList s) ((replicate (locationCount s) INT_MAX)[0 := 0]) [(0, 0)] =
          Inr dist"
    and least: "nonneg_costs (adjList s) \<and> no_overflow (adjList s) 0 \<longrightarrow>
         (\<forall>D v. locationToIndex s D = Some v \<and> (0, v) \<in> (edges (adjList s))\<^sup>* \<longrightarrow>
            (\<exists>d. min_cost (adjList s) 0 v d \<and>
               (d < INT_MAX \<longrightarrow> dist ! v = d \<and> plan' ! v = (D, ETA d (wrap32 (d * 5)))) \<and>
               (INT_MAX \<le> d \<longrightarrow> dist ! v = INT_MAX \<and> plan' ! v = (D, Unreachable))))"
    and enough: "nonneg_costs (adjList s) \<and> total_cost (adjList s) \<le> INT_MAX \<longrightarrow>
         no_overflow (adjList s) 0"
    unfolding s_def [symmetric] by blast
  from r run have dist: "dist = [0, 1, 3, INT_MAX]" by (metis Inr_inject)
  from enough nn tot have "no_overflow (adjList s) 0" by blast
  with least nn c rc obtain d where mc: "min_cost (adjList s) 0 2 d"
    and lo: "d < INT_MAX \<longrightarrow> dist ! 2 = d" and hi: "INT_MAX \<le> d \<longrightarrow> dist ! 2 = INT_MAX"
    by blast
  from lo hi have "d = 3" by (cases "d < INT_MAX") (simp_all add: dist INT_MAX_def)
  with mc have mc3: "min_cost (adjList s) 0 2 3" by simp
  have within: "v < 3" if "(0, v) \<in> (edges (adjList s))\<^sup>*" for v
    using that
  proof (induction rule: rtrancl_induct)
    case base
    show ?case by simp
  next
    case (step y z)
    then have "y = 0 \<or> y = 1 \<or> y = 2" by auto
    with step.hyps(2) show ?case by (auto simp: adj edges_def)
  qed
  from within [of 3] have nd: "(0, 3) \<notin> (edges (adjList s))\<^sup>*" by auto
  from plan mc3 nd show ?thesis unfolding s_def [symmetric] by (intro conjI)
qed

text \<open>
  Claim C8 as stated fails where a least cost reaches \<open>INT_MAX\<close>, the value that marks
  a location as not reached. Routes A-B of cost \<open>2^31 - 1\<close> and B-C of cost 1, and an
  isolated D. No cost is negative and the only sum the loop computes is
  \<open>0 + (2^31 - 1)\<close>. D has no path and is printed as unreachable. C has a path, and
  the least cost of one is \<open>2^31\<close>; its final distance is \<open>2^31 - 1\<close>, which is not the
  least cost of any path to C, and C is printed as unreachable too.
\<close>

theorem least_cost_counterexample:
  "nonneg_costs (adjList (run init [AddLocation ''A'', AddLocation ''B'', AddLocation ''C'',
      AddLocation ''D'', AddRoute ''A'' ''B'' 2147483647, AddRoute ''B'' ''C'' 1])) \<and>
   no_overflow (adjList (run init [AddLocation ''A'', AddLocation ''B'', AddLocation ''C'',
      AddLocation ''D'', AddRoute ''A'' ''B'' 2147483647, AddRoute ''B'' ''C'' 1])) 0 \<and>
   locationToIndex (run init [AddLocation ''A'', AddLocation ''B'', AddLocation ''C'',
      AddLocation ''D'', AddRoute ''A'' ''B'' 2147483647, AddRoute ''B'' ''C'' 1]) ''A'' =
     Some 0 \<and>
   (0, 3) \<notin> (edges (adjList (run init [AddLocation ''A'', AddLocation ''B'',
      AddLocation ''C'', AddLocation ''D'', AddRoute ''A'' ''B'' 2147483647,
      AddRoute ''B'' ''C'' 1])))\<^sup>* \<and>
   dijkstra_loop (adjList (run init [AddLocation ''A'', AddLocation ''B'', AddLocation ''C'',
      AddLocation ''D'', AddRoute ''A'' ''B'' 2147483647, AddRoute ''B'' ''C'' 1]))
      ((replicate 4 INT_MAX)[0 := 0]) [(0, 0)] =
     Inr [0, 2147483647, 2147483647, 2147483647] \<and>
   optimizeDeliveryPlan (run init [AddLocation ''A'', AddLocation ''B'', AddLocation ''C'',
      AddLocation ''D'', AddRoute ''A'' ''B'' 2147483647, AddRoute ''B'' ''C'' 1]) ''A'' =
     Inr [(''A'', ETA 0 0), (''B'', Unreachable), (''C'', Unreachable), (''D'', Unreachable)] \<and>
   min_cost (adjList (run init [AddLocation ''A'', AddLocation ''B'', AddLocation ''C'',
      AddLocation ''D'', AddRoute ''A'' ''B'' 2147483647, AddRoute ''B'' ''C'' 1]))
      0 2 2147483648 \<and>
   \<not> min_cost (adjList (run init [AddLocation ''A'', AddLocation ''B'', AddLocation ''C'',
      AddLocation ''D'', AddRoute ''A'' ''B'' 2147483647, AddRoute ''B'' ''C'' 1]))
      0 2 2147483647"
proof -
  define s where "s = run init [AddLocation ''A'', AddLocation ''B'', AddLocation ''C'',
      AddLocation ''D'', AddRoute ''A'' ''B'' 2147483647, AddRoute ''B'' ''C'' 1]"
  have a: "locationToIndex s ''A'' = Some 0" unfolding s_def by code_simp
  have adj: "adjList s = [[(1, 2147483647)], [(0, 2147483647), (2, 1)], [(1, 1)], []]"
    unfolding s_def by code_simp
  have run: "dijkstra_loop (adjList s) ((replicate 4 INT_MAX)[0 := 0]) [(0, 0)] =
      Inr [0, 2147483647, 2147483647, 2147483647]" unfolding s_def by code_simp
  have plan: "optimizeDeliveryPlan s ''A'' =
      Inr [(''A'', ETA 0 0), (''B'', Unreachable), (''C'', Unreachable), (''D'', Unreachable)]"
    unfolding s_def by code_simp
  have nn: "nonneg_costs (adjList s)" by (simp add: adj nonneg_costs_def)
  have bounds: "(v = 0 \<and> 0 \<le> k) \<or> (v = 1 \<and> 2147483647 \<le> k) \<or> (v = 2 \<and> 2147483648 \<le> k)"
    if "walk (adjList s) 0 v k" for v k
    using that
  proof (induction rule: walk.induct)
    case walk_start
    show ?case by simp
  next
    case (walk_step u k v c)
    from walk_step.IH walk_step.hyps(3) show ?case
      by (auto simp: adj)
  qed
  have w1: "walk (adjList s) 0 1 (0 + 2147483647)"
    by (rule walk_step [OF walk_start]) (simp_all add: adj)
  have w2: "walk (adjList s) 0 2 (0 + 2147483647 + 1)"
    by (rule walk_step [OF w1]) (simp_all add: adj)
  have mc: "min_cost (adjList s) 0 2 2147483648"
    unfolding min_cost_def using w2 bounds [of 2] by auto
  have nmc: "\<not> min_cost (adjList s) 0 2 2147483647"
    unfolding min_cost_def using bounds [of 2 2147483647] by auto
  have nd: "(0, 3) \<notin> (edges (adjList s))\<^sup>*"
  proof
    assume "(0, 3) \<in> (edges (adjList s))\<^sup>*"
    from reach_walk [OF this] obtain k where "walk (adjList s) 0 3 k" by blast
    from bounds [OF this] show False by simp
  qed
  have ov: "no_overflow (adjList s) 0"
    unfolding no_overflow_def
  proof (intro allI impI ballI)
    fix u d p
    assume "min_cost (adjList s) 0 u d \<and> d < INT_MAX" and p: "p \<in> set (adjList s ! u)"
    then have wu: "walk (adjList s) 0 u d" and least: "\<And>k. walk (adjList s) 0 u k \<Longrightarrow> d \<le> k"
      and lt: "d < INT_MAX"
      by (simp_all add: min_cost_def)
    from bounds [OF wu] lt have u: "u = 0" by (auto simp: INT_MAX_def)
    with least [of 0] have "d \<le> 0" by (simp add: walk_start)
    with p u show "d + snd p \<le> INT_MAX" by (simp add: adj INT_MAX_def)
  qed
  from nn ov a nd run plan mc nmc show ?thesis unfolding s_def [symmetric] by (intro conjI)
qed

text \<open>
  Why the sums must stay in range. A single route A-B of cost \<open>2^30\<close>: relaxing it back
  from B adds \<open>2^30 + 2^30\<close>, which is outside 32 bits; with the two's-complement
  result \<open>-2^31\<close> the source ends with that distance although its least cost is 0.
\<close>

lemma wrapped_sum_example:
  "nonneg_costs (adjList (run init
      [AddLocation ''A'', AddLocation ''B'', AddRoute ''A'' ''B'' 1073741824])) \<and>
   dijkstra_loop (adjList (run init
      [AddLocation ''A'', AddLocation ''B'', AddRoute ''A'' ''B'' 1073741824]))
      ((replicate 2 INT_MAX)[0 := 0]) [(0, 0)] = Inr [- 2147483648, - 1073741824] \<and>
   min_cost (adjList (run init
      [AddLocation ''A'', AddLocation ''B'', AddRoute ''A'' ''B'' 1073741824])) 0 0 0"
proof -
  define s where
    "s = run init [AddLocation ''A'', AddLocation ''B'', AddRoute ''A'' ''B'' 1073741824]"
  have adj: "adjList s = [[(1, 1073741824)], [(0, 1073741824)]]" unfolding s_def by code_simp
  have run: "dijkstra_loop (adjList s) ((replicate 2 INT_MAX)[0 := 0]) [(0, 0)] =
      Inr [- 2147483648, - 1073741824]" unfolding s_def by code_simp
  have nn: "nonneg_costs (adjList s)" by (simp add: adj nonneg_costs_def)
  have zero: "min_cost (adjList s) 0 0 0"
    unfolding min_cost_def using walk_nonneg [OF _ nn] by (auto intro: walk_start)
  from nn run zero show ?thesis unfolding s_def [symmetric] by (intro conjI)
qed

end
